theory Spec2Isabelle
  imports Main "HOL-Library.Word"
begin

section \<open>Memory model\<close>

text \<open>
  The list of \<^verbatim>\<open>single-linked-list.h\<close> is a chain of \<^verbatim>\<open>Node\<close> cells linked by raw
  pointers, anchored at a sentinel node \<^verbatim>\<open>head_\<close> embedded in the list object. Iterators
  hold a raw \<^verbatim>\<open>Node*\<close> that may point at a heap node or at the sentinel, so the model keeps
  every node (heap nodes and sentinels alike) in one store indexed by address.

  \<^item> An address is a 64-bit word; \<^verbatim>\<open>nullptr\<close> is address 0.
  \<^item> \<^verbatim>\<open>size_t\<close> is a 64-bit word: \<^verbatim>\<open>++size_\<close> and \<^verbatim>\<open>--size_\<close> wrap around.
  \<^item> The store maps an address to the node living there; an address outside its domain is
    not (or no longer) a live node.
  \<^item> The builds modelled are the debug builds: a failing \<^verbatim>\<open>assert\<close> stops the operation
    with \<open>AssertionFailed\<close>. Where the source goes on to read or write through a null or a
    dead pointer the model stops with \<open>NullDereference\<close> or \<open>DanglingDereference\<close>
    (undefined behaviour in C++). \<^verbatim>\<open>new\<close> throwing \<^verbatim>\<open>std::bad_alloc\<close> is \<open>BadAlloc\<close>.
  \<^item> Isabelle names cannot end in an underscore, so the members \<^verbatim>\<open>head_\<close>, \<^verbatim>\<open>size_\<close> and
    \<^verbatim>\<open>node_\<close> are written \<open>head'\<close>, \<open>size'\<close> and \<open>node'\<close>.
\<close>

type_synonym addr = "64 word"
type_synonym size_t = "64 word"

abbreviation nullptr :: addr where
  "nullptr \<equiv> 0"

datatype error = AssertionFailed | NullDereference | DanglingDereference | BadAlloc

text \<open>\<^verbatim>\<open>struct Node { Type value; Node* next_node = nullptr; }\<close>\<close>

record 'a Node =
  "value" :: 'a
  next_node :: addr

type_synonym 'a heap = "addr \<rightharpoonup> 'a Node"

text \<open>Reading through a pointer: \<^verbatim>\<open>*p\<close> or \<^verbatim>\<open>p->field\<close>.\<close>

definition deref :: "'a heap \<Rightarrow> addr \<Rightarrow> error + 'a Node" where
  "deref h p =
     (if p = nullptr then Inl NullDereference
      else case h p of None \<Rightarrow> Inl DanglingDereference | Some n \<Rightarrow> Inr n)"

text \<open>The assignment \<^verbatim>\<open>p->next_node = q\<close>.\<close>

definition write_next :: "'a heap \<Rightarrow> addr \<Rightarrow> addr \<Rightarrow> error + 'a heap" where
  "write_next h p q =
     (case deref h p of
        Inl e \<Rightarrow> Inl e
      | Inr n \<Rightarrow> Inr (h(p \<mapsto> n\<lparr>next_node := q\<rparr>)))"

text \<open>
  \<^verbatim>\<open>new Node(val, next)\<close>. The allocator is a parameter: \<open>alloc h\<close> is the address
  \<^verbatim>\<open>operator new\<close> hands out in store \<open>h\<close>, or \<open>None\<close> when it throws.
\<close>

type_synonym 'a allocator = "'a heap \<Rightarrow> addr option"

definition new_Node :: "'a allocator \<Rightarrow> 'a heap \<Rightarrow> 'a \<Rightarrow> addr \<Rightarrow> error + ('a heap \<times> addr)" where
  "new_Node alloc h val nxt =
     (case alloc h of
        None \<Rightarrow> Inl BadAlloc
      | Some p \<Rightarrow> Inr (h(p \<mapsto> \<lparr>value = val, next_node = nxt\<rparr>), p))"

text \<open>\<^verbatim>\<open>delete p\<close>: deleting the null pointer does nothing; deleting a dead node is undefined.\<close>

definition delete_Node :: "'a heap \<Rightarrow> addr \<Rightarrow> error + 'a heap" where
  "delete_Node h p =
     (if p = nullptr then Inr h
      else case h p of None \<Rightarrow> Inl DanglingDereference | Some n \<Rightarrow> Inr (h(p := None)))"

section \<open>Iterators\<close>

text \<open>
  \<^verbatim>\<open>BasicIterator<ValueType>\<close> has the single member \<^verbatim>\<open>Node* node_ = nullptr\<close>. The
  instances \<^verbatim>\<open>Iterator\<close> and \<^verbatim>\<open>ConstIterator\<close> differ only in the reference type they hand
  out; the four comparison operators all compare \<^verbatim>\<open>node_\<close>.
\<close>

record BasicIterator =
  node' :: addr

type_synonym Iterator = BasicIterator
type_synonym ConstIterator = BasicIterator

text \<open>\<^verbatim>\<open>BasicIterator() = default\<close>: the member initialiser sets \<^verbatim>\<open>node_\<close> to null.\<close>

definition BasicIterator_default :: BasicIterator where
  "BasicIterator_default = \<lparr>node' = nullptr\<rparr>"

text \<open>\<^verbatim>\<open>explicit BasicIterator(Node* node)\<close>\<close>

definition BasicIterator_of :: "addr \<Rightarrow> BasicIterator" where
  "BasicIterator_of node = \<lparr>node' = node\<rparr>"

text \<open>\<^verbatim>\<open>BasicIterator(const BasicIterator<Type>& other)\<close>: copy or conversion to const.\<close>

definition BasicIterator_copy :: "Iterator \<Rightarrow> BasicIterator" where
  "BasicIterator_copy other = \<lparr>node' = node' other\<rparr>"

definition it_eq :: "BasicIterator \<Rightarrow> BasicIterator \<Rightarrow> bool" where
  "it_eq lhs rhs = (node' lhs = node' rhs)"

definition it_neq :: "BasicIterator \<Rightarrow> BasicIterator \<Rightarrow> bool" where
  "it_neq lhs rhs = (node' lhs \<noteq> node' rhs)"

text \<open>\<^verbatim>\<open>operator++()\<close>: asserts, then follows the link.\<close>

definition it_pre_incr :: "'a heap \<Rightarrow> BasicIterator \<Rightarrow> error + BasicIterator" where
  "it_pre_incr h it =
     (if node' it = nullptr then Inl AssertionFailed
      else case deref h (node' it) of
             Inl e \<Rightarrow> Inl e
           | Inr n \<Rightarrow> Inr (it\<lparr>node' := next_node n\<rparr>))"

text \<open>\<^verbatim>\<open>operator++(int)\<close>: returns the old position and the advanced iterator.\<close>

definition it_post_incr :: "'a heap \<Rightarrow> BasicIterator \<Rightarrow> error + (BasicIterator \<times> BasicIterator)" where
  "it_post_incr h it =
     (if node' it = nullptr then Inl AssertionFailed
      else case deref h (node' it) of
             Inl e \<Rightarrow> Inl e
           | Inr n \<Rightarrow> Inr (BasicIterator_of (node' it), it\<lparr>node' := next_node n\<rparr>))"

text \<open>\<^verbatim>\<open>operator*()\<close>: asserts, then reads the value.\<close>

definition it_deref :: "'a heap \<Rightarrow> BasicIterator \<Rightarrow> error + 'a" where
  "it_deref h it =
     (if node' it = nullptr then Inl AssertionFailed
      else case deref h (node' it) of
             Inl e \<Rightarrow> Inl e
           | Inr n \<Rightarrow> Inr (value n))"

section \<open>The list\<close>

text \<open>
  \<^verbatim>\<open>class SingleLinkedList { Node head_; size_t size_; }\<close>. The sentinel \<^verbatim>\<open>head_\<close> is
  embedded in the object; \<open>head'\<close> is its address (what \<^verbatim>\<open>&head_\<close> evaluates to) and its
  contents are in the store at that address.
\<close>

record SingleLinkedList =
  head' :: addr
  size' :: size_t

definition GetSize :: "SingleLinkedList \<Rightarrow> size_t" where
  "GetSize l = size' l"

definition IsEmpty :: "SingleLinkedList \<Rightarrow> bool" where
  "IsEmpty l = (size' l = 0)"

text \<open>\<^verbatim>\<open>begin()\<close>, \<^verbatim>\<open>cbegin()\<close>: \<^verbatim>\<open>Iterator(head_.next_node)\<close>.\<close>

definition begin_it :: "'a heap \<Rightarrow> SingleLinkedList \<Rightarrow> error + BasicIterator" where
  "begin_it h l =
     (case deref h (head' l) of
        Inl e \<Rightarrow> Inl e
      | Inr hn \<Rightarrow> Inr (BasicIterator_of (next_node hn)))"

definition cbegin :: "'a heap \<Rightarrow> SingleLinkedList \<Rightarrow> error + BasicIterator" where
  "cbegin h l = begin_it h l"

text \<open>\<^verbatim>\<open>end()\<close>, \<^verbatim>\<open>cend()\<close>: \<^verbatim>\<open>Iterator(nullptr)\<close>.\<close>

definition end_it :: "SingleLinkedList \<Rightarrow> BasicIterator" where
  "end_it l = BasicIterator_of nullptr"

definition cend :: "SingleLinkedList \<Rightarrow> BasicIterator" where
  "cend l = BasicIterator_of nullptr"

text \<open>\<^verbatim>\<open>before_begin()\<close>, \<^verbatim>\<open>cbefore_begin()\<close>: \<^verbatim>\<open>Iterator(&head_)\<close>.\<close>

definition before_begin :: "SingleLinkedList \<Rightarrow> BasicIterator" where
  "before_begin l = BasicIterator_of (head' l)"

definition cbefore_begin :: "SingleLinkedList \<Rightarrow> BasicIterator" where
  "cbefore_begin l = BasicIterator_of (head' l)"

text \<open>
  An operation returns \<open>Inr\<close> with the new store and list object (and its result), or
  \<open>Inl\<close> with the error and the store and list object as they were when it stopped.
\<close>

type_synonym 'a failure = "error \<times> 'a heap \<times> SingleLinkedList"

text \<open>
  \<^verbatim>\<open>PushFront\<close>: \<^verbatim>\<open>head_.next_node = new Node(value, head_.next_node); ++size_;\<close>
\<close>

definition PushFront ::
  "'a allocator \<Rightarrow> 'a heap \<Rightarrow> SingleLinkedList \<Rightarrow> 'a
     \<Rightarrow> 'a failure + ('a heap \<times> SingleLinkedList)" where
  "PushFront alloc h l val =
     (case deref h (head' l) of
        Inl e \<Rightarrow> Inl (e, h, l)
      | Inr hn \<Rightarrow>
     (case new_Node alloc h val (next_node hn) of
        Inl e \<Rightarrow> Inl (e, h, l)
      | Inr (h1, p) \<Rightarrow>
     (case write_next h1 (head' l) p of
        Inl e \<Rightarrow> Inl (e, h1, l)
      | Inr h2 \<Rightarrow> Inr (h2, l\<lparr>size' := size' l + 1\<rparr>))))"

text \<open>
  \<^verbatim>\<open>PopFront\<close>: returns at once when \<^verbatim>\<open>IsEmpty()\<close>; otherwise
  \<^verbatim>\<open>Node* new_front = head_.next_node->next_node; delete head_.next_node;
  head_.next_node = new_front; --size_;\<close>
\<close>

definition PopFront ::
  "'a heap \<Rightarrow> SingleLinkedList \<Rightarrow> 'a failure + ('a heap \<times> SingleLinkedList)" where
  "PopFront h l =
     (if IsEmpty l then Inr (h, l)
      else
     (case deref h (head' l) of
        Inl e \<Rightarrow> Inl (e, h, l)
      | Inr hn \<Rightarrow>
     (case deref h (next_node hn) of
        Inl e \<Rightarrow> Inl (e, h, l)
      | Inr front \<Rightarrow>
     (case delete_Node h (next_node hn) of
        Inl e \<Rightarrow> Inl (e, h, l)
      | Inr h1 \<Rightarrow>
     (case write_next h1 (head' l) (next_node front) of
        Inl e \<Rightarrow> Inl (e, h1, l)
      | Inr h2 \<Rightarrow> Inr (h2, l\<lparr>size' := size' l - 1\<rparr>))))))"

text \<open>
  \<^verbatim>\<open>InsertAfter(pos, value)\<close>: \<^verbatim>\<open>assert(pos.node_ != nullptr);
  Node* insert_node = new Node(value, nullptr);
  insert_node->next_node = pos.node_->next_node;
  pos.node_->next_node = insert_node; ++size_;
  return Iterator(pos.node_->next_node);\<close>
\<close>

definition InsertAfter ::
  "'a allocator \<Rightarrow> 'a heap \<Rightarrow> SingleLinkedList \<Rightarrow> ConstIterator \<Rightarrow> 'a
     \<Rightarrow> 'a failure + ('a heap \<times> SingleLinkedList \<times> Iterator)" where
  "InsertAfter alloc h l pos val =
     (if node' pos = nullptr then Inl (AssertionFailed, h, l)
      else
     (case new_Node alloc h val nullptr of
        Inl e \<Rightarrow> Inl (e, h, l)
      | Inr (h1, insert_node) \<Rightarrow>
     (case deref h1 (node' pos) of
        Inl e \<Rightarrow> Inl (e, h1, l)
      | Inr pn \<Rightarrow>
     (case write_next h1 insert_node (next_node pn) of
        Inl e \<Rightarrow> Inl (e, h1, l)
      | Inr h2 \<Rightarrow>
     (case write_next h2 (node' pos) insert_node of
        Inl e \<Rightarrow> Inl (e, h2, l)
      | Inr h3 \<Rightarrow>
     (case deref h3 (node' pos) of
        Inl e \<Rightarrow> Inl (e, h3, l\<lparr>size' := size' l + 1\<rparr>)
      | Inr pn' \<Rightarrow>
          Inr (h3, l\<lparr>size' := size' l + 1\<rparr>, BasicIterator_of (next_node pn'))))))))"

text \<open>
  \<^verbatim>\<open>EraseAfter(pos)\<close>: \<^verbatim>\<open>assert(pos.node_ != nullptr);
  Node* erase_node = pos.node_->next_node;
  pos.node_->next_node = erase_node->next_node;
  delete erase_node; --size_;
  return Iterator(pos.node_->next_node);\<close>
\<close>

definition EraseAfter ::
  "'a heap \<Rightarrow> SingleLinkedList \<Rightarrow> ConstIterator
     \<Rightarrow> 'a failure + ('a heap \<times> SingleLinkedList \<times> Iterator)" where
  "EraseAfter h l pos =
     (if node' pos = nullptr then Inl (AssertionFailed, h, l)
      else
     (case deref h (node' pos) of
        Inl e \<Rightarrow> Inl (e, h, l)
      | Inr pn \<Rightarrow>
     (case deref h (next_node pn) of
        Inl e \<Rightarrow> Inl (e, h, l)
      | Inr en \<Rightarrow>
     (case write_next h (node' pos) (next_node en) of
        Inl e \<Rightarrow> Inl (e, h, l)
      | Inr h1 \<Rightarrow>
     (case delete_Node h1 (next_node pn) of
        Inl e \<Rightarrow> Inl (e, h1, l)
      | Inr h2 \<Rightarrow>
     (case deref h2 (node' pos) of
        Inl e \<Rightarrow> Inl (e, h2, l\<lparr>size' := size' l - 1\<rparr>)
      | Inr pn' \<Rightarrow>
          Inr (h2, l\<lparr>size' := size' l - 1\<rparr>, BasicIterator_of (next_node pn'))))))))"

text \<open>
  \<^verbatim>\<open>Clear\<close>: \<^verbatim>\<open>while (head_.next_node != nullptr) { auto temp = head_.next_node;
  head_.next_node = temp->next_node; delete temp; --size_; }\<close>
  Every round deletes a live node, and the address space is finite, so the loop ends.
\<close>

function Clear ::
  "'a heap \<Rightarrow> SingleLinkedList \<Rightarrow> 'a failure + ('a heap \<times> SingleLinkedList)" where
  "Clear h l =
     (case deref h (head' l) of
        Inl e \<Rightarrow> Inl (e, h, l)
      | Inr hn \<Rightarrow>
          if next_node hn = nullptr then Inr (h, l)
          else
     (case deref h (next_node hn) of
        Inl e \<Rightarrow> Inl (e, h, l)
      | Inr tn \<Rightarrow>
     (case write_next h (head' l) (next_node tn) of
        Inl e \<Rightarrow> Inl (e, h, l)
      | Inr h1 \<Rightarrow>
     (case delete_Node h1 (next_node hn) of
        Inl e \<Rightarrow> Inl (e, h1, l)
      | Inr h2 \<Rightarrow> Clear h2 (l\<lparr>size' := size' l - 1\<rparr>)))))"
  by pat_completeness auto

termination Clear
proof (relation "measure (\<lambda>(h, l). card (dom h))", goal_cases)
  case 1
  show ?case by simp
next
  case (2 h l hn tn h1 h2)
  from 2(3) have p: "next_node hn \<in> dom h"
    by (auto simp: deref_def split: if_splits option.splits)
  from 2(4) have "dom h1 = dom h"
    by (auto simp: write_next_def deref_def split: if_splits option.splits sum.splits)
  moreover from 2(2,5) have "h2 = h1(next_node hn := None)"
    by (auto simp: delete_Node_def split: if_splits option.splits)
  ultimately have "dom h2 = dom h - {next_node hn}"
    by simp
  moreover have "card (dom h - {next_node hn}) < card (dom h)"
    using p by (intro card_Diff1_less) simp_all
  ultimately show ?case
    by simp
qed

declare Clear.simps [simp del]

text \<open>
  \<^verbatim>\<open>swap(other)\<close>: \<^verbatim>\<open>std::swap(head_.next_node, other.head_.next_node);
  std::swap(size_, other.size_);\<close>
\<close>

definition swap ::
  "'a heap \<Rightarrow> SingleLinkedList \<Rightarrow> SingleLinkedList
     \<Rightarrow> error + ('a heap \<times> SingleLinkedList \<times> SingleLinkedList)" where
  "swap h l other =
     (case deref h (head' l) of
        Inl e \<Rightarrow> Inl e
      | Inr hn \<Rightarrow>
     (case deref h (head' other) of
        Inl e \<Rightarrow> Inl e
      | Inr on \<Rightarrow>
     (case write_next h (head' l) (next_node on) of
        Inl e \<Rightarrow> Inl e
      | Inr h1 \<Rightarrow>
     (case write_next h1 (head' other) (next_node hn) of
        Inl e \<Rightarrow> Inl e
      | Inr h2 \<Rightarrow>
          Inr (h2, l\<lparr>size' := size' other\<rparr>, other\<lparr>size' := size' l\<rparr>)))))"

section \<open>Comparing lists\<close>

text \<open>
  The comparison operators call \<^verbatim>\<open>std::equal\<close> and \<^verbatim>\<open>std::lexicographical_compare\<close> on
  the list's constant iterators. Both are modelled as the C++ standard defines them, with
  the iterator operators of this file; the element type's \<^verbatim>\<open>==\<close> and \<^verbatim>\<open><\<close> are \<open>=\<close> and
  \<open><\<close>. The loops follow pointers, so on a store with a cycle they need not end: a
  comparison that does not return is \<open>None\<close>.

  \<^verbatim>\<open>std::equal(first1, last1, first2)\<close>:
  \<^verbatim>\<open>for (; first1 != last1; ++first1, ++first2) if (!(*first1 == *first2)) return false;
  return true;\<close>
\<close>

partial_function (option) std_equal ::
  "'a heap \<Rightarrow> ConstIterator \<Rightarrow> ConstIterator \<Rightarrow> ConstIterator \<Rightarrow> (error + bool) option" where
  "std_equal h first1 last1 first2 =
     (if \<not> it_neq first1 last1 then Some (Inr True)
      else
     (case it_deref h first1 of
        Inl e \<Rightarrow> Some (Inl e)
      | Inr x \<Rightarrow>
     (case it_deref h first2 of
        Inl e \<Rightarrow> Some (Inl e)
      | Inr y \<Rightarrow>
          if \<not> (x = y) then Some (Inr False)
          else
     (case it_pre_incr h first1 of
        Inl e \<Rightarrow> Some (Inl e)
      | Inr next1 \<Rightarrow>
     (case it_pre_incr h first2 of
        Inl e \<Rightarrow> Some (Inl e)
      | Inr next2 \<Rightarrow> std_equal h next1 last1 next2)))))"

text \<open>
  \<^verbatim>\<open>std::lexicographical_compare(first1, last1, first2, last2)\<close>:
  \<^verbatim>\<open>for (; (first1 != last1) && (first2 != last2); ++first1, (void) ++first2) {
    if (*first1 < *first2) return true;
    if (*first2 < *first1) return false; }
  return (first1 == last1) && (first2 != last2);\<close>
\<close>

partial_function (option) std_lexicographical_compare ::
  "('a :: ord) heap \<Rightarrow> ConstIterator \<Rightarrow> ConstIterator \<Rightarrow> ConstIterator \<Rightarrow> ConstIterator
     \<Rightarrow> (error + bool) option" where
  "std_lexicographical_compare h first1 last1 first2 last2 =
     (if \<not> (it_neq first1 last1 \<and> it_neq first2 last2)
      then Some (Inr (it_eq first1 last1 \<and> it_neq first2 last2))
      else
     (case it_deref h first1 of
        Inl e \<Rightarrow> Some (Inl e)
      | Inr x \<Rightarrow>
     (case it_deref h first2 of
        Inl e \<Rightarrow> Some (Inl e)
      | Inr y \<Rightarrow>
          if x < y then Some (Inr True)
          else if y < x then Some (Inr False)
          else
     (case it_pre_incr h first1 of
        Inl e \<Rightarrow> Some (Inl e)
      | Inr next1 \<Rightarrow>
     (case it_pre_incr h first2 of
        Inl e \<Rightarrow> Some (Inl e)
      | Inr next2 \<Rightarrow> std_lexicographical_compare h next1 last1 next2 last2)))))"

text \<open>
  \<^verbatim>\<open>operator==\<close>:
  \<^verbatim>\<open>lhs.GetSize() == rhs.GetSize() && equal(lhs.cbegin(), lhs.cend(), rhs.cbegin())\<close>
\<close>

definition operator_eq ::
  "'a heap \<Rightarrow> SingleLinkedList \<Rightarrow> SingleLinkedList \<Rightarrow> (error + bool) option" where
  "operator_eq h lhs rhs =
     (if GetSize lhs = GetSize rhs then
        (case cbegin h lhs of
           Inl e \<Rightarrow> Some (Inl e)
         | Inr first1 \<Rightarrow>
        (case cbegin h rhs of
           Inl e \<Rightarrow> Some (Inl e)
         | Inr first2 \<Rightarrow> std_equal h first1 (cend lhs) first2))
      else Some (Inr False))"

text \<open>\<^verbatim>\<open>operator!=\<close>: \<^verbatim>\<open>!(lhs == rhs)\<close>\<close>

definition operator_neq ::
  "'a heap \<Rightarrow> SingleLinkedList \<Rightarrow> SingleLinkedList \<Rightarrow> (error + bool) option" where
  "operator_neq h lhs rhs =
     (case operator_eq h lhs rhs of
        None \<Rightarrow> None
      | Some (Inl e) \<Rightarrow> Some (Inl e)
      | Some (Inr b) \<Rightarrow> Some (Inr (\<not> b)))"

text \<open>
  \<^verbatim>\<open>operator<\<close>:
  \<^verbatim>\<open>lexicographical_compare(lhs.cbegin(), lhs.cend(), rhs.cbegin(), rhs.cend())\<close>
\<close>

definition operator_less ::
  "('a :: ord) heap \<Rightarrow> SingleLinkedList \<Rightarrow> SingleLinkedList \<Rightarrow> (error + bool) option" where
  "operator_less h lhs rhs =
     (case cbegin h lhs of
        Inl e \<Rightarrow> Some (Inl e)
      | Inr first1 \<Rightarrow>
     (case cbegin h rhs of
        Inl e \<Rightarrow> Some (Inl e)
      | Inr first2 \<Rightarrow> std_lexicographical_compare h first1 (cend lhs) first2 (cend rhs)))"

text \<open>\<^verbatim>\<open>operator<=\<close>: \<^verbatim>\<open>lhs < rhs || lhs == rhs\<close>\<close>

definition operator_le ::
  "('a :: ord) heap \<Rightarrow> SingleLinkedList \<Rightarrow> SingleLinkedList \<Rightarrow> (error + bool) option" where
  "operator_le h lhs rhs =
     (case operator_less h lhs rhs of
        None \<Rightarrow> None
      | Some (Inl e) \<Rightarrow> Some (Inl e)
      | Some (Inr b) \<Rightarrow> if b then Some (Inr True) else operator_eq h lhs rhs)"

text \<open>\<^verbatim>\<open>operator>\<close>: \<^verbatim>\<open>rhs < lhs\<close>\<close>

definition operator_greater ::
  "('a :: ord) heap \<Rightarrow> SingleLinkedList \<Rightarrow> SingleLinkedList \<Rightarrow> (error + bool) option" where
  "operator_greater h lhs rhs = operator_less h rhs lhs"

text \<open>\<^verbatim>\<open>operator>=\<close>: \<^verbatim>\<open>!(lhs < rhs)\<close>\<close>

definition operator_ge ::
  "('a :: ord) heap \<Rightarrow> SingleLinkedList \<Rightarrow> SingleLinkedList \<Rightarrow> (error + bool) option" where
  "operator_ge h lhs rhs =
     (case operator_less h lhs rhs of
        None \<Rightarrow> None
      | Some (Inl e) \<Rightarrow> Some (Inl e)
      | Some (Inr b) \<Rightarrow> Some (Inr (\<not> b)))"

section \<open>Construction, destruction, assignment\<close>

text \<open>
  \<^verbatim>\<open>SingleLinkedList() : size_(0) {}\<close>, for an object placed at address \<open>this\<close>. The
  sentinel is default-initialised: its link is null by the member initialiser, and its
  value is whatever default-initialisation of \<^verbatim>\<open>Type\<close> leaves there (\<open>dflt\<close>; it is never
  read).
\<close>

definition SingleLinkedList_default :: "'a heap \<Rightarrow> addr \<Rightarrow> 'a \<Rightarrow> 'a heap \<times> SingleLinkedList" where
  "SingleLinkedList_default h this dflt =
     (h(this \<mapsto> \<lparr>value = dflt, next_node = nullptr\<rparr>), \<lparr>head' = this, size' = 0\<rparr>)"

text \<open>
  \<^verbatim>\<open>~SingleLinkedList() { Clear(); }\<close>, after which the storage of the object, with the
  sentinel in it, is gone.
\<close>

definition SingleLinkedList_destroy :: "'a heap \<Rightarrow> SingleLinkedList \<Rightarrow> 'a failure + 'a heap" where
  "SingleLinkedList_destroy h l =
     (case Clear h l of
        Inl e \<Rightarrow> Inl e
      | Inr (h1, l1) \<Rightarrow> Inr (h1(head' l1 := None)))"

text \<open>
  The loop of the initializer-list constructor:
  \<^verbatim>\<open>for (const auto& element : values) current = temp.InsertAfter(current, element);\<close>
\<close>

fun insert_all ::
  "'a allocator \<Rightarrow> 'a heap \<Rightarrow> SingleLinkedList \<Rightarrow> Iterator \<Rightarrow> 'a list
     \<Rightarrow> 'a failure + ('a heap \<times> SingleLinkedList \<times> Iterator)" where
  "insert_all alloc h temp current [] = Inr (h, temp, current)"
| "insert_all alloc h temp current (element # values) =
     (case InsertAfter alloc h temp current element of
        Inl e \<Rightarrow> Inl e
      | Inr (h1, temp1, current1) \<Rightarrow> insert_all alloc h1 temp1 current1 values)"

text \<open>
  The loop of the copy constructor, \<^verbatim>\<open>for (const auto& element : other)
  current = temp.InsertAfter(current, element);\<close>, which runs a constant iterator from
  \<^verbatim>\<open>other.begin()\<close> to \<^verbatim>\<open>other.end()\<close>.
\<close>

partial_function (option) copy_all ::
  "'a allocator \<Rightarrow> 'a heap \<Rightarrow> SingleLinkedList \<Rightarrow> Iterator \<Rightarrow> ConstIterator \<Rightarrow> ConstIterator
     \<Rightarrow> ('a failure + ('a heap \<times> SingleLinkedList \<times> Iterator)) option" where
  "copy_all alloc h temp current it last1 =
     (if \<not> it_neq it last1 then Some (Inr (h, temp, current))
      else
     (case it_deref h it of
        Inl e \<Rightarrow> Some (Inl (e, h, temp))
      | Inr element \<Rightarrow>
     (case InsertAfter alloc h temp current element of
        Inl e \<Rightarrow> Some (Inl e)
      | Inr (h1, temp1, current1) \<Rightarrow>
     (case it_pre_incr h1 it of
        Inl e \<Rightarrow> Some (Inl (e, h1, temp1))
      | Inr it1 \<Rightarrow> copy_all alloc h1 temp1 current1 it1 last1))))"

text \<open>
  A constructor or an assignment that fails returns the error and the store it leaves.
  When \<^verbatim>\<open>std::bad_alloc\<close> leaves a constructor, the local \<^verbatim>\<open>temp\<close> is destroyed on the
  way out and the object under construction never comes to life.
\<close>

type_synonym 'a ctor_failure = "error \<times> 'a heap"

definition unwind :: "'a heap \<Rightarrow> SingleLinkedList \<Rightarrow> addr \<Rightarrow> 'a ctor_failure" where
  "unwind h temp this =
     (case SingleLinkedList_destroy h temp of
        Inl (e, h1, l1) \<Rightarrow> (e, h1)
      | Inr h1 \<Rightarrow> (BadAlloc, h1(this := None)))"

text \<open>
  The common end of both constructors and of the assignment: \<^verbatim>\<open>swap(temp);\<close> and then
  \<^verbatim>\<open>temp\<close> goes out of scope.
\<close>

definition swap_and_drop ::
  "'a heap \<Rightarrow> SingleLinkedList \<Rightarrow> SingleLinkedList
     \<Rightarrow> 'a ctor_failure + ('a heap \<times> SingleLinkedList)" where
  "swap_and_drop h self temp =
     (case swap h self temp of
        Inl e \<Rightarrow> Inl (e, h)
      | Inr (h1, self1, temp1) \<Rightarrow>
     (case SingleLinkedList_destroy h1 temp1 of
        Inl (e, h2, l2) \<Rightarrow> Inl (e, h2)
      | Inr h2 \<Rightarrow> Inr (h2, self1)))"

text \<open>
  \<^verbatim>\<open>SingleLinkedList(std::initializer_list<Type> values)\<close>, for an object placed at address
  \<open>this\<close>, with the local \<^verbatim>\<open>temp\<close> placed at address \<open>tmp\<close>. The constructor has no member
  initialiser for \<^verbatim>\<open>size_\<close>, which therefore starts with an indeterminate value
  (\<open>garbage\<close>).
\<close>

definition SingleLinkedList_init ::
  "'a allocator \<Rightarrow> 'a heap \<Rightarrow> addr \<Rightarrow> addr \<Rightarrow> 'a \<Rightarrow> size_t \<Rightarrow> 'a list
     \<Rightarrow> 'a ctor_failure + ('a heap \<times> SingleLinkedList)" where
  "SingleLinkedList_init alloc h this tmp dflt garbage values =
     (let h0 = h(this \<mapsto> \<lparr>value = dflt, next_node = nullptr\<rparr>);
          self = \<lparr>head' = this, size' = garbage\<rparr>;
          (h1, temp) = SingleLinkedList_default h0 tmp dflt
      in case insert_all alloc h1 temp (before_begin temp) values of
           Inl (e, h2, temp2) \<Rightarrow> if e = BadAlloc then Inl (unwind h2 temp2 this) else Inl (e, h2)
         | Inr (h2, temp2, current) \<Rightarrow> swap_and_drop h2 self temp2)"

text \<open>\<^verbatim>\<open>SingleLinkedList(const SingleLinkedList& other)\<close>, placed likewise.\<close>

definition SingleLinkedList_copy ::
  "'a allocator \<Rightarrow> 'a heap \<Rightarrow> addr \<Rightarrow> addr \<Rightarrow> 'a \<Rightarrow> size_t \<Rightarrow> SingleLinkedList
     \<Rightarrow> ('a ctor_failure + ('a heap \<times> SingleLinkedList)) option" where
  "SingleLinkedList_copy alloc h this tmp dflt garbage other =
     (let h0 = h(this \<mapsto> \<lparr>value = dflt, next_node = nullptr\<rparr>);
          self = \<lparr>head' = this, size' = garbage\<rparr>;
          (h1, temp) = SingleLinkedList_default h0 tmp dflt
      in case begin_it h1 other of
           Inl e \<Rightarrow> Some (Inl (e, h1))
         | Inr first1 \<Rightarrow>
        (case copy_all alloc h1 temp (before_begin temp) first1 (end_it other) of
           None \<Rightarrow> None
         | Some (Inl (e, h2, temp2)) \<Rightarrow>
             if e = BadAlloc then Some (Inl (unwind h2 temp2 this)) else Some (Inl (e, h2))
         | Some (Inr (h2, temp2, current)) \<Rightarrow> Some (swap_and_drop h2 self temp2)))"

text \<open>
  \<^verbatim>\<open>operator=(const SingleLinkedList& rhs)\<close>:
  \<^verbatim>\<open>SingleLinkedList temp(rhs); swap(temp); return *this;\<close> with the local \<^verbatim>\<open>temp\<close> at
  address \<open>tmp1\<close> and the local of its copy constructor at \<open>tmp2\<close>.
\<close>

definition operator_assign ::
  "'a allocator \<Rightarrow> 'a heap \<Rightarrow> SingleLinkedList \<Rightarrow> SingleLinkedList \<Rightarrow> addr \<Rightarrow> addr \<Rightarrow> 'a \<Rightarrow> size_t
     \<Rightarrow> ('a ctor_failure + ('a heap \<times> SingleLinkedList)) option" where
  "operator_assign alloc h self rhs tmp1 tmp2 dflt garbage =
     (case SingleLinkedList_copy alloc h tmp1 tmp2 dflt garbage rhs of
        None \<Rightarrow> None
      | Some (Inl e) \<Rightarrow> Some (Inl e)
      | Some (Inr (h1, temp)) \<Rightarrow> Some (swap_and_drop h1 self temp))"

section \<open>Walking a list\<close>

text \<open>
  The number of iterator steps from \<open>first1\<close> to \<open>last1\<close>, counted as
  \<^verbatim>\<open>std::distance\<close> does for a forward iterator:
  \<^verbatim>\<open>while (first1 != last1) { ++first1; ++n; }\<close>. The count is a natural number.
\<close>

partial_function (option) std_distance ::
  "'a heap \<Rightarrow> BasicIterator \<Rightarrow> BasicIterator \<Rightarrow> nat \<Rightarrow> (error + nat) option" where
  "std_distance h first1 last1 n =
     (if \<not> it_neq first1 last1 then Some (Inr n)
      else
     (case it_pre_incr h first1 of
        Inl e \<Rightarrow> Some (Inl e)
      | Inr next1 \<Rightarrow> std_distance h next1 last1 (Suc n)))"

text \<open>The iterator reached from \<open>it\<close> by \<open>k\<close> increments.\<close>

primrec advance :: "'a heap \<Rightarrow> BasicIterator \<Rightarrow> nat \<Rightarrow> error + BasicIterator" where
  "advance h it 0 = Inr it"
| "advance h it (Suc k) =
     (case it_pre_incr h it of
        Inl e \<Rightarrow> Inl e
      | Inr next1 \<Rightarrow> advance h next1 k)"

section \<open>Programs\<close>

text \<open>
  A program state: the store, and the list objects that are alive, by variable name.
  \<open>step alloc w w'\<close> holds when one public operation of the list, applied to live
  objects of \<open>w\<close>, returns normally or throws \<^verbatim>\<open>std::bad_alloc\<close> (which the program
  catches), and leaves \<open>w'\<close>. What the rules ask for is what a C++
  program cannot avoid or what the operation's contract asks for:
  \<^item> a new object (or a local \<^verbatim>\<open>temp\<close>) is placed at an address that is not null and
    holds no live node, and the two addresses a constructor needs are different;
  \<^item> the position given to \<^verbatim>\<open>InsertAfter\<close> or \<^verbatim>\<open>EraseAfter\<close> is an iterator of the
    list the operation is called on, obtained from its \<^verbatim>\<open>before_begin()\<close> by increments.
\<close>

record 'a world =
  store :: "'a heap"
  objects :: "nat \<rightharpoonup> SingleLinkedList"

definition initial_world :: "'a world" where
  "initial_world = \<lparr>store = Map.empty, objects = Map.empty\<rparr>"

inductive step :: "'a allocator \<Rightarrow> 'a world \<Rightarrow> 'a world \<Rightarrow> bool" for alloc :: "'a allocator" where
  construct_default:
    "objects w x = None \<Longrightarrow> this \<noteq> nullptr \<Longrightarrow> store w this = None \<Longrightarrow>
     SingleLinkedList_default (store w) this dflt = (h', l') \<Longrightarrow>
     step alloc w \<lparr>store = h', objects = (objects w)(x \<mapsto> l')\<rparr>"
| construct_init:
    "objects w x = None \<Longrightarrow> this \<noteq> nullptr \<Longrightarrow> store w this = None \<Longrightarrow>
     tmp \<noteq> nullptr \<Longrightarrow> store w tmp = None \<Longrightarrow> this \<noteq> tmp \<Longrightarrow>
     SingleLinkedList_init alloc (store w) this tmp dflt garbage vals = Inr (h', l') \<Longrightarrow>
     step alloc w \<lparr>store = h', objects = (objects w)(x \<mapsto> l')\<rparr>"
| construct_copy:
    "objects w x = None \<Longrightarrow> objects w y = Some other \<Longrightarrow>
     this \<noteq> nullptr \<Longrightarrow> store w this = None \<Longrightarrow>
     tmp \<noteq> nullptr \<Longrightarrow> store w tmp = None \<Longrightarrow> this \<noteq> tmp \<Longrightarrow>
     SingleLinkedList_copy alloc (store w) this tmp dflt garbage other = Some (Inr (h', l')) \<Longrightarrow>
     step alloc w \<lparr>store = h', objects = (objects w)(x \<mapsto> l')\<rparr>"
| assign:
    "objects w x = Some l \<Longrightarrow> objects w y = Some rhs \<Longrightarrow>
     tmp1 \<noteq> nullptr \<Longrightarrow> store w tmp1 = None \<Longrightarrow>
     tmp2 \<noteq> nullptr \<Longrightarrow> store w tmp2 = None \<Longrightarrow> tmp1 \<noteq> tmp2 \<Longrightarrow>
     operator_assign alloc (store w) l rhs tmp1 tmp2 dflt garbage = Some (Inr (h', l')) \<Longrightarrow>
     step alloc w \<lparr>store = h', objects = (objects w)(x \<mapsto> l')\<rparr>"
| destroy:
    "objects w x = Some l \<Longrightarrow> SingleLinkedList_destroy (store w) l = Inr h' \<Longrightarrow>
     step alloc w \<lparr>store = h', objects = (objects w)(x := None)\<rparr>"
| push_front:
    "objects w x = Some l \<Longrightarrow> PushFront alloc (store w) l val = Inr (h', l') \<Longrightarrow>
     step alloc w \<lparr>store = h', objects = (objects w)(x \<mapsto> l')\<rparr>"
| pop_front:
    "objects w x = Some l \<Longrightarrow> PopFront (store w) l = Inr (h', l') \<Longrightarrow>
     step alloc w \<lparr>store = h', objects = (objects w)(x \<mapsto> l')\<rparr>"
| insert_after:
    "objects w x = Some l \<Longrightarrow> advance (store w) (before_begin l) k = Inr pos \<Longrightarrow>
     InsertAfter alloc (store w) l pos val = Inr (h', l', it) \<Longrightarrow>
     step alloc w \<lparr>store = h', objects = (objects w)(x \<mapsto> l')\<rparr>"
| erase_after:
    "objects w x = Some l \<Longrightarrow> advance (store w) (before_begin l) k = Inr pos \<Longrightarrow>
     EraseAfter (store w) l pos = Inr (h', l', it) \<Longrightarrow>
     step alloc w \<lparr>store = h', objects = (objects w)(x \<mapsto> l')\<rparr>"
| clear:
    "objects w x = Some l \<Longrightarrow> Clear (store w) l = Inr (h', l') \<Longrightarrow>
     step alloc w \<lparr>store = h', objects = (objects w)(x \<mapsto> l')\<rparr>"
| swap_lists:
    "objects w x = Some l \<Longrightarrow> objects w y = Some other \<Longrightarrow>
     swap (store w) l other = Inr (h', l', other') \<Longrightarrow>
     step alloc w \<lparr>store = h', objects = (objects w)(y \<mapsto> other', x \<mapsto> l')\<rparr>"
| construct_init_throws:
    "objects w x = None \<Longrightarrow> this \<noteq> nullptr \<Longrightarrow> store w this = None \<Longrightarrow>
     tmp \<noteq> nullptr \<Longrightarrow> store w tmp = None \<Longrightarrow> this \<noteq> tmp \<Longrightarrow>
     SingleLinkedList_init alloc (store w) this tmp dflt garbage vals = Inl (BadAlloc, h') \<Longrightarrow>
     step alloc w \<lparr>store = h', objects = objects w\<rparr>"
| construct_copy_throws:
    "objects w x = None \<Longrightarrow> objects w y = Some other \<Longrightarrow>
     this \<noteq> nullptr \<Longrightarrow> store w this = None \<Longrightarrow>
     tmp \<noteq> nullptr \<Longrightarrow> store w tmp = None \<Longrightarrow> this \<noteq> tmp \<Longrightarrow>
     SingleLinkedList_copy alloc (store w) this tmp dflt garbage other =
       Some (Inl (BadAlloc, h')) \<Longrightarrow>
     step alloc w \<lparr>store = h', objects = objects w\<rparr>"
| assign_throws:
    "objects w x = Some l \<Longrightarrow> objects w y = Some rhs \<Longrightarrow>
     tmp1 \<noteq> nullptr \<Longrightarrow> store w tmp1 = None \<Longrightarrow>
     tmp2 \<noteq> nullptr \<Longrightarrow> store w tmp2 = None \<Longrightarrow> tmp1 \<noteq> tmp2 \<Longrightarrow>
     operator_assign alloc (store w) l rhs tmp1 tmp2 dflt garbage = Some (Inl (BadAlloc, h')) \<Longrightarrow>
     step alloc w \<lparr>store = h', objects = objects w\<rparr>"
| push_front_throws:
    "objects w x = Some l \<Longrightarrow> PushFront alloc (store w) l val = Inl (BadAlloc, h', l') \<Longrightarrow>
     step alloc w \<lparr>store = h', objects = (objects w)(x \<mapsto> l')\<rparr>"
| insert_after_throws:
    "objects w x = Some l \<Longrightarrow> advance (store w) (before_begin l) k = Inr pos \<Longrightarrow>
     InsertAfter alloc (store w) l pos val = Inl (BadAlloc, h', l') \<Longrightarrow>
     step alloc w \<lparr>store = h', objects = (objects w)(x \<mapsto> l')\<rparr>"

text \<open>The states a program can reach from the empty one.\<close>

definition reachable :: "'a allocator \<Rightarrow> 'a world \<Rightarrow> bool" where
  "reachable alloc w \<longleftrightarrow> (step alloc)\<^sup>*\<^sup>* initial_world w"

section \<open>The chain of a list\<close>

text \<open>
  \<open>path h p cs q\<close>: following \<^verbatim>\<open>next_node\<close> from \<open>p\<close> visits exactly the live nodes
  listed in \<open>cs\<close> (address and value of each, in order) and arrives at \<open>q\<close>.
  \<open>cells h p cs\<close> is the path that ends at the null pointer.
\<close>

primrec path :: "'a heap \<Rightarrow> addr \<Rightarrow> (addr \<times> 'a) list \<Rightarrow> addr \<Rightarrow> bool" where
  "path h p [] q \<longleftrightarrow> p = q"
| "path h p (c # cs) q \<longleftrightarrow>
     p = fst c \<and> p \<noteq> nullptr \<and>
     (case h p of None \<Rightarrow> False | Some n \<Rightarrow> value n = snd c \<and> path h (next_node n) cs q)"

abbreviation cells :: "'a heap \<Rightarrow> addr \<Rightarrow> (addr \<times> 'a) list \<Rightarrow> bool" where
  "cells h p cs \<equiv> path h p cs nullptr"

text \<open>
  \<open>is_list h l cs\<close>: the list object \<open>l\<close> is well formed in store \<open>h\<close> and holds the
  nodes \<open>cs\<close>: its sentinel is live, the sentinel's forward link leads through exactly
  \<open>cs\<close> to null, and \<^verbatim>\<open>size_\<close> is the number of these nodes.
\<close>

definition is_list :: "'a heap \<Rightarrow> SingleLinkedList \<Rightarrow> (addr \<times> 'a) list \<Rightarrow> bool" where
  "is_list h l cs \<longleftrightarrow>
     head' l \<noteq> nullptr \<and>
     (case h (head' l) of None \<Rightarrow> False | Some hn \<Rightarrow> cells h (next_node hn) cs) \<and>
     unat (size' l) = length cs"

text \<open>The element sequence of a list with nodes \<open>cs\<close>.\<close>

abbreviation elements :: "(addr \<times> 'a) list \<Rightarrow> 'a list" where
  "elements cs \<equiv> map snd cs"

text \<open>
  The addresses a well-formed list occupies: its sentinel and its nodes.
\<close>

definition footprint :: "SingleLinkedList \<Rightarrow> (addr \<times> 'a) list \<Rightarrow> addr set" where
  "footprint l cs = insert (head' l) (fst ` set cs)"

text \<open>
  \<open>unchanged_outside F h h'\<close>: every node that is live in \<open>h\<close> and lies outside \<open>F\<close> is
  the same in \<open>h'\<close>.
\<close>

definition unchanged_outside :: "addr set \<Rightarrow> 'a heap \<Rightarrow> 'a heap \<Rightarrow> bool" where
  "unchanged_outside F h h' \<longleftrightarrow> (\<forall>q. q \<in> dom h \<and> q \<notin> F \<longrightarrow> h' q = h q)"

text \<open>
  The invariant of program states: every live list object is well formed, and no two
  of them share an address.
\<close>

definition world_inv :: "'a world \<Rightarrow> bool" where
  "world_inv w \<longleftrightarrow>
     (\<exists>fp. (\<forall>x l. objects w x = Some l \<longrightarrow> is_list (store w) l (fp x)) \<and>
           (\<forall>x y l m. x \<noteq> y \<longrightarrow> objects w x = Some l \<longrightarrow> objects w y = Some m \<longrightarrow>
              footprint l (fp x) \<inter> footprint m (fp y) = {}))"

section \<open>Allocators\<close>

text \<open>
  What the theorems assume of \<^verbatim>\<open>operator new\<close>: the address it returns is not null and
  is not the address of a live node.
\<close>

definition valid_allocator :: "'a allocator \<Rightarrow> bool" where
  "valid_allocator alloc \<longleftrightarrow> (\<forall>h a. alloc h = Some a \<longrightarrow> a \<noteq> nullptr \<and> h a = None)"

text \<open>
  An allocator to run examples with: it hands out the first address of a pool that is
  free in the current store, and fails when the pool has none.
\<close>

definition first_free :: "addr list \<Rightarrow> 'a allocator" where
  "first_free pool h = find (\<lambda>a. a \<noteq> nullptr \<and> h a = None) pool"

section \<open>Example lists\<close>

text \<open>
  A store to run the comparisons on: the list \<open>[1, 2]\<close> with its sentinel at address 1,
  the list \<open>[1, 2, 0]\<close> with its sentinel at address 4, and the empty list with its
  sentinel at address 8.
\<close>

definition example_store :: "nat heap" where
  "example_store =
     [1 \<mapsto> \<lparr>value = 0::nat, next_node = 2\<rparr>, 2 \<mapsto> \<lparr>value = 1, next_node = 3\<rparr>,
       3 \<mapsto> \<lparr>value = 2, next_node = nullptr\<rparr>,
       4 \<mapsto> \<lparr>value = 0, next_node = 5\<rparr>, 5 \<mapsto> \<lparr>value = 1, next_node = 6\<rparr>,
       6 \<mapsto> \<lparr>value = 2, next_node = 7\<rparr>, 7 \<mapsto> \<lparr>value = 0, next_node = nullptr\<rparr>,
       8 \<mapsto> \<lparr>value = 0, next_node = nullptr\<rparr>]"

definition example_A :: SingleLinkedList where
  "example_A = \<lparr>head' = 1, size' = 2\<rparr>"

definition example_B :: SingleLinkedList where
  "example_B = \<lparr>head' = 4, size' = 3\<rparr>"

definition example_E :: SingleLinkedList where
  "example_E = \<lparr>head' = 8, size' = 0\<rparr>"

section \<open>Facts about chains\<close>

lemma path_append:
  "path h p (cs @ ds) q \<longleftrightarrow> (\<exists>r. path h p cs r \<and> path h r ds q)"
  by (induction cs arbitrary: p) (auto split: option.splits)

lemma cells_unique:
  "cells h p cs \<Longrightarrow> cells h p ds \<Longrightarrow> cs = ds"
proof (induction cs arbitrary: p ds)
  case Nil
  then show ?case by (cases ds) auto
next
  case (Cons c cs)
  then show ?case
    by (cases ds) (auto split: option.splits simp: prod_eq_iff)
qed

lemma path_upd_other:
  "a \<notin> fst ` set cs \<Longrightarrow> path (h(a := x)) p cs q \<longleftrightarrow> path h p cs q"
  by (induction cs arbitrary: p) (auto split: option.splits)

lemma path_frame:
  "path h p cs q \<Longrightarrow> (\<And>a. a \<in> fst ` set cs \<Longrightarrow> h' a = h a) \<Longrightarrow> path h' p cs q"
  by (induction cs arbitrary: p) (auto split: option.splits)

lemma path_live:
  "path h p cs q \<Longrightarrow> c \<in> set cs \<Longrightarrow>
     fst c \<noteq> nullptr \<and> (\<exists>n. h (fst c) = Some n \<and> value n = snd c)"
  by (induction cs arbitrary: p) (auto split: option.splits)

lemma cells_head_not_in_tail:
  assumes "cells h p (c # cs)"
  shows "fst c \<notin> fst ` set cs"
proof
  assume "fst c \<in> fst ` set cs"
  then obtain d where d: "d \<in> set cs" "fst d = fst c"
    by auto
  then obtain us vs where split: "cs = us @ d # vs"
    by (auto simp: in_set_conv_decomp)
  from assms split have "cells h p ((c # us) @ d # vs)"
    by auto
  then obtain r where "cells h r (d # vs)"
    unfolding path_append by blast
  then have "cells h (fst c) (d # vs)"
    using d by auto
  moreover from assms have "cells h (fst c) (c # cs)"
    by auto
  ultimately have "d # vs = c # cs"
    by (rule cells_unique)
  then show False
    by (simp add: split)
qed

lemma path_suffix:
  "path h p (cs @ ds) q \<Longrightarrow> \<exists>r. path h r ds q"
  unfolding path_append by blast

lemma cells_tail:
  "cells h p (c # cs) \<Longrightarrow> \<exists>r. cells h r cs"
  by (auto split: option.splits)

lemma cells_distinct:
  "cells h p cs \<Longrightarrow> distinct (map fst cs)"
proof (induction cs arbitrary: p)
  case Nil
  show ?case by simp
next
  case (Cons c cs)
  from Cons.prems have "fst c \<notin> fst ` set cs"
    by (rule cells_head_not_in_tail)
  moreover from Cons.prems obtain r where "cells h r cs"
    by (blast dest: cells_tail)
  ultimately show ?case
    using Cons.IH by simp
qed

lemma distinct_addrs_bound:
  fixes as :: "addr list"
  assumes "distinct as" "nullptr \<notin> set as"
  shows "length as < 2 ^ 64"
proof -
  have "length as = card (set as)"
    using assms(1) by (simp add: distinct_card)
  also have "set as \<subseteq> UNIV - {nullptr}"
    using assms(2) by auto
  then have "card (set as) \<le> card (UNIV - {nullptr :: addr})"
    by (intro card_mono) simp_all
  also have "\<dots> = 2 ^ 64 - 1"
    by (simp add: card_Diff_singleton card_word)
  finally show ?thesis by simp
qed

section \<open>Facts about well-formed lists\<close>

lemma is_list_sentinel_cells:
  "is_list h l cs \<Longrightarrow> \<exists>d. cells h (head' l) ((head' l, d) # cs)"
  by (auto simp: is_list_def split: option.splits)

lemma is_list_sentinel_notin:
  assumes "is_list h l cs"
  shows "head' l \<notin> fst ` set cs"
proof -
  from is_list_sentinel_cells [OF assms] obtain d
    where "cells h (head' l) ((head' l, d) # cs)" ..
  from cells_head_not_in_tail [OF this] show ?thesis
    by simp
qed

lemma is_list_distinct:
  assumes "is_list h l cs"
  shows "distinct (head' l # map fst cs)" and "nullptr \<notin> set (head' l # map fst cs)"
proof -
  from is_list_sentinel_cells [OF assms] obtain d
    where c: "cells h (head' l) ((head' l, d) # cs)" ..
  from cells_distinct [OF c] show "distinct (head' l # map fst cs)"
    by simp
  from path_live [OF c] show "nullptr \<notin> set (head' l # map fst cs)"
    by fastforce
qed

lemma is_list_length_bound:
  assumes "is_list h l cs"
  shows "Suc (length cs) < 2 ^ 64"
  using distinct_addrs_bound [OF is_list_distinct [OF assms]] by simp

lemma is_list_unique:
  "is_list h l cs \<Longrightarrow> is_list h l ds \<Longrightarrow> cs = ds"
  by (auto simp: is_list_def split: option.splits dest: cells_unique)

lemma unat_size_incr:
  fixes n :: size_t
  assumes "Suc (unat n) < 2 ^ 64"
  shows "unat (n + 1) = Suc (unat n)"
  using assms by (simp add: unat_word_ariths)

lemma unat_size_decr:
  fixes n :: size_t
  assumes "unat n = Suc k"
  shows "unat (n - 1) = k"
proof -
  from assms have "n \<noteq> 0"
    by auto
  then have "unat (n - 1) = unat n - 1"
    by (rule unat_minus_one)
  with assms show ?thesis
    by simp
qed

lemma PopFront_nonempty:
  assumes "is_list h l (c # cs)"
  shows "\<exists>hn fn. h (head' l) = Some hn \<and> h (fst c) = Some fn \<and> next_node hn = fst c \<and>
           PopFront h l =
             Inr ((h(fst c := None))(head' l \<mapsto> hn\<lparr>next_node := next_node fn\<rparr>),
                  l\<lparr>size' := size' l - 1\<rparr>) \<and>
           is_list ((h(fst c := None))(head' l \<mapsto> hn\<lparr>next_node := next_node fn\<rparr>))
                  (l\<lparr>size' := size' l - 1\<rparr>) cs"
proof -
  from assms obtain hn where hn: "h (head' l) = Some hn" "head' l \<noteq> nullptr"
      "cells h (next_node hn) (c # cs)" "unat (size' l) = length (c # cs)"
    by (auto simp: is_list_def split: option.splits)
  from hn(3) obtain fn where fn: "next_node hn = fst c" "fst c \<noteq> nullptr" "h (fst c) = Some fn"
      "value fn = snd c" "cells h (next_node fn) cs"
    by (auto split: option.splits)
  from is_list_sentinel_notin [OF assms] have neq: "head' l \<noteq> fst c" "head' l \<notin> fst ` set cs"
    by auto
  from cells_head_not_in_tail [OF hn(3)] have c_notin: "fst c \<notin> fst ` set cs" .
  from hn(4) have nonempty: "\<not> IsEmpty l"
    by (auto simp: IsEmpty_def)
  let ?h' = "(h(fst c := None))(head' l \<mapsto> hn\<lparr>next_node := next_node fn\<rparr>)"
  have run: "PopFront h l = Inr (?h', l\<lparr>size' := size' l - 1\<rparr>)"
    using hn(1,2) fn(1,2,3) neq(1) nonempty
    by (simp add: PopFront_def deref_def delete_Node_def write_next_def)
  have "cells ?h' (next_node fn) cs"
    using fn(5) neq(2) c_notin by (simp add: path_upd_other)
  moreover have "unat (size' l - 1) = length cs"
    using hn(4) by (intro unat_size_decr) simp
  ultimately have "is_list ?h' (l\<lparr>size' := size' l - 1\<rparr>) cs"
    using hn(2) by (simp add: is_list_def)
  with run hn(1) fn(1,3) show ?thesis
    by blast
qed

lemma PopFront_empty:
  "IsEmpty l \<Longrightarrow> PopFront h l = Inr (h, l)"
  by (simp add: PopFront_def)

lemma is_list_Nil_IsEmpty:
  "is_list h l [] \<Longrightarrow> IsEmpty l"
  by (simp add: is_list_def IsEmpty_def unat_eq_0 split: option.splits)

lemma path_live_addr:
  "path h p cs q \<Longrightarrow> a \<in> fst ` set cs \<Longrightarrow> a \<noteq> nullptr \<and> h a \<noteq> None"
  by (induction cs arbitrary: p) (auto split: option.splits)

lemma cells_length_bound:
  assumes "cells h p cs"
  shows "length cs < 2 ^ 64"
proof -
  have "distinct (map fst cs)"
    using assms by (rule cells_distinct)
  moreover have "nullptr \<notin> set (map fst cs)"
    using path_live_addr [OF assms] by auto
  ultimately have "length (map fst cs) < 2 ^ 64"
    by (rule distinct_addrs_bound)
  then show ?thesis
    by simp
qed

lemma is_listI:
  assumes "cells h (head' l) ((head' l, d) # cs)" "unat (size' l) = length cs"
  shows "is_list h l cs"
  using assms by (auto simp: is_list_def split: option.splits)

lemma cells_splice:
  assumes "cells h s (pre @ (p, x) # post)"
    and "h p = Some pn" "cells h' q post'"
    and "h' p = Some (pn\<lparr>next_node := q\<rparr>)"
    and "\<And>a. a \<in> fst ` set pre \<Longrightarrow> h' a = h a"
  shows "cells h' s (pre @ (p, x) # post')"
proof -
  from assms(1) obtain r where r: "path h s pre r" "cells h r ((p, x) # post)"
    unfolding path_append by blast
  from r(2) assms(2) have p: "r = p" "p \<noteq> nullptr" "value pn = x"
    by auto
  from r(1) assms(5) have "path h' s pre r"
    by (rule path_frame)
  moreover from p assms(3,4) have "cells h' r ((p, x) # post')"
    by simp
  ultimately show ?thesis
    unfolding path_append by blast
qed

lemma sentinel_chain_split:
  "\<exists>before x. (s, d) # pre = before @ [(last (s # map fst pre), x)]"
  by (cases pre rule: rev_cases) auto

text \<open>
  The node a position refers to, inside a well-formed list: the list splits at the
  position, the node is live, and its link leads through the rest of the list.
\<close>

lemma is_list_position:
  assumes "is_list h l (pre @ post)" and "p = last (head' l # map fst pre)"
  obtains before x d pn where
    "(head' l, d) # pre = before @ [(p, x)]"
    "cells h (head' l) (before @ (p, x) # post)"
    "h p = Some pn" "p \<noteq> nullptr" "cells h (next_node pn) post"
    "p \<notin> fst ` set before" "p \<notin> fst ` set post"
    "fst ` set before \<inter> fst ` set post = {}"
proof -
  from is_list_sentinel_cells [OF assms(1)] obtain d
    where full: "cells h (head' l) ((head' l, d) # pre @ post)" ..
  from sentinel_chain_split [of "head' l" d pre] assms(2) obtain before x
    where split: "(head' l, d) # pre = before @ [(p, x)]"
    by blast
  then have shape: "(head' l, d) # pre @ post = before @ (p, x) # post"
    by (metis append_Cons append_Nil append_assoc)
  with full have c: "cells h (head' l) (before @ (p, x) # post)"
    by simp
  then obtain r where "cells h r ((p, x) # post)"
    unfolding path_append by blast
  then obtain pn where pn: "h p = Some pn" "p \<noteq> nullptr" "cells h (next_node pn) post"
    by (auto split: option.splits)
  from cells_distinct [OF c] have
    "p \<notin> fst ` set before" "p \<notin> fst ` set post" "fst ` set before \<inter> fst ` set post = {}"
    by simp_all
  with split c pn show ?thesis
    by (rule that)
qed

lemma InsertAfter_at:
  assumes l: "is_list h l (pre @ post)"
    and pos: "node' pos = last (head' l # map fst pre)"
    and a: "alloc h = Some a" "a \<noteq> nullptr" "h a = None"
  shows "\<exists>pn. h (node' pos) = Some pn \<and>
           InsertAfter alloc h l pos v =
             Inr (h(a \<mapsto> \<lparr>value = v, next_node = next_node pn\<rparr>,
                    node' pos \<mapsto> pn\<lparr>next_node := a\<rparr>),
                  l\<lparr>size' := size' l + 1\<rparr>, BasicIterator_of a) \<and>
           is_list (h(a \<mapsto> \<lparr>value = v, next_node = next_node pn\<rparr>,
                      node' pos \<mapsto> pn\<lparr>next_node := a\<rparr>))
                   (l\<lparr>size' := size' l + 1\<rparr>) (pre @ (a, v) # post)"
proof -
  from l pos obtain before x d pn where
    split: "(head' l, d) # pre = before @ [(node' pos, x)]" and
    c: "cells h (head' l) (before @ (node' pos, x) # post)" and
    pn: "h (node' pos) = Some pn" "node' pos \<noteq> nullptr" "cells h (next_node pn) post" and
    dist: "node' pos \<notin> fst ` set before" "node' pos \<notin> fst ` set post"
    by (rule is_list_position)
  let ?h' = "h(a \<mapsto> \<lparr>value = v, next_node = next_node pn\<rparr>, node' pos \<mapsto> pn\<lparr>next_node := a\<rparr>)"
  let ?l' = "l\<lparr>size' := size' l + 1\<rparr>"
  from pn(1) a(3) have neq: "node' pos \<noteq> a"
    by auto
  have fresh: "a \<notin> fst ` set (before @ (node' pos, x) # post)"
    using path_live_addr [OF c, of a] a(3) by blast
  have run: "InsertAfter alloc h l pos v = Inr (?h', ?l', BasicIterator_of a)"
    using pn(1,2) a neq
    by (simp add: InsertAfter_def new_Node_def deref_def write_next_def)
  from fresh have fresh_post: "a \<notin> fst ` set post" and fresh_before: "a \<notin> fst ` set before"
    by auto
  have "cells ?h' (next_node pn) post"
    using pn(3) dist(2) fresh_post by (simp add: path_upd_other)
  then have "cells ?h' a ((a, v) # post)"
    using a(2) neq by simp
  with c pn(1) have "cells ?h' (head' l) (before @ (node' pos, x) # (a, v) # post)"
  proof (rule cells_splice)
    show "?h' (node' pos) = Some (pn\<lparr>next_node := a\<rparr>)"
      by simp
    show "?h' b = h b" if "b \<in> fst ` set before" for b
    proof -
      from that dist(1) fresh_before have "b \<noteq> node' pos" "b \<noteq> a"
        by blast+
      then show ?thesis
        by simp
    qed
  qed
  moreover have "before @ (node' pos, x) # (a, v) # post = (head' l, d) # pre @ (a, v) # post"
    using split by (metis append_Cons append_Nil append_assoc)
  ultimately have "cells ?h' (head' ?l') ((head' ?l', d) # pre @ (a, v) # post)"
    by simp
  moreover have "unat (size' ?l') = length (pre @ (a, v) # post)"
  proof -
    have "length ((head' ?l', d) # pre @ (a, v) # post) < 2 ^ 64"
      using calculation by (rule cells_length_bound)
    moreover from l have "unat (size' l) = length (pre @ post)"
      by (simp add: is_list_def)
    ultimately show ?thesis
      by (simp add: unat_size_incr)
  qed
  ultimately have "is_list ?h' ?l' (pre @ (a, v) # post)"
    by (rule is_listI)
  with run pn(1) show ?thesis
    by blast
qed


lemma EraseAfter_at:
  assumes l: "is_list h l (pre @ c # post)"
    and pos: "node' pos = last (head' l # map fst pre)"
  shows "\<exists>pn cn. h (node' pos) = Some pn \<and> next_node pn = fst c \<and> h (fst c) = Some cn \<and>
           EraseAfter h l pos =
             Inr ((h(node' pos \<mapsto> pn\<lparr>next_node := next_node cn\<rparr>))(fst c := None),
                  l\<lparr>size' := size' l - 1\<rparr>, BasicIterator_of (next_node cn)) \<and>
           is_list ((h(node' pos \<mapsto> pn\<lparr>next_node := next_node cn\<rparr>))(fst c := None))
                   (l\<lparr>size' := size' l - 1\<rparr>) (pre @ post)"
proof -
  from l pos obtain before x d pn where
    split: "(head' l, d) # pre = before @ [(node' pos, x)]" and
    full: "cells h (head' l) (before @ (node' pos, x) # c # post)" and
    pn: "h (node' pos) = Some pn" "node' pos \<noteq> nullptr" "cells h (next_node pn) (c # post)" and
    dist: "node' pos \<notin> fst ` set before" "node' pos \<notin> fst ` set (c # post)"
      "fst ` set before \<inter> fst ` set (c # post) = {}"
    by (rule is_list_position)
  from pn(3) obtain cn where cn: "next_node pn = fst c" "fst c \<noteq> nullptr" "h (fst c) = Some cn"
      "cells h (next_node cn) post"
    by (auto split: option.splits)
  from cells_head_not_in_tail [OF pn(3)] have c_post: "fst c \<notin> fst ` set post" .
  from dist have neq: "node' pos \<noteq> fst c" and p_post: "node' pos \<notin> fst ` set post"
    and c_before: "fst c \<notin> fst ` set before"
    by auto
  let ?h' = "(h(node' pos \<mapsto> pn\<lparr>next_node := next_node cn\<rparr>))(fst c := None)"
  let ?l' = "l\<lparr>size' := size' l - 1\<rparr>"
  have run: "EraseAfter h l pos = Inr (?h', ?l', BasicIterator_of (next_node cn))"
    using pn(1,2) cn(1,2,3) neq
    by (simp add: EraseAfter_def deref_def write_next_def delete_Node_def)
  have "cells ?h' (next_node cn) post"
    using cn(4) p_post c_post by (simp add: path_upd_other)
  with full pn(1) have "cells ?h' (head' l) (before @ (node' pos, x) # post)"
  proof (rule cells_splice)
    show "?h' (node' pos) = Some (pn\<lparr>next_node := next_node cn\<rparr>)"
      using neq by simp
    show "?h' b = h b" if "b \<in> fst ` set before" for b
    proof -
      from that dist(1) c_before have "b \<noteq> node' pos" "b \<noteq> fst c"
        by blast+
      then show ?thesis
        by simp
    qed
  qed
  moreover have "before @ (node' pos, x) # post = (head' l, d) # pre @ post"
    using split by (metis append_Cons append_Nil append_assoc)
  ultimately have "cells ?h' (head' ?l') ((head' ?l', d) # pre @ post)"
    by simp
  moreover have "unat (size' ?l') = length (pre @ post)"
  proof -
    from l have "unat (size' l) = Suc (length (pre @ post))"
      by (simp add: is_list_def)
    then show ?thesis
      by (simp add: unat_size_decr)
  qed
  ultimately have "is_list ?h' ?l' (pre @ post)"
    by (rule is_listI)
  with run pn(1) cn(1,3) show ?thesis
    by blast
qed

lemma PushFront_list:
  assumes l: "is_list h l cs"
    and a: "alloc h = Some a" "a \<noteq> nullptr" "h a = None"
  shows "\<exists>hn. h (head' l) = Some hn \<and>
           PushFront alloc h l v =
             Inr (h(a \<mapsto> \<lparr>value = v, next_node = next_node hn\<rparr>,
                    head' l \<mapsto> hn\<lparr>next_node := a\<rparr>),
                  l\<lparr>size' := size' l + 1\<rparr>) \<and>
           is_list (h(a \<mapsto> \<lparr>value = v, next_node = next_node hn\<rparr>,
                      head' l \<mapsto> hn\<lparr>next_node := a\<rparr>))
                   (l\<lparr>size' := size' l + 1\<rparr>) ((a, v) # cs)"
proof -
  from l have l': "is_list h l ([] @ cs)"
    by simp
  have pos: "node' (before_begin l) = last (head' l # map fst [])"
    by (simp add: before_begin_def BasicIterator_of_def)
  from InsertAfter_at [of h l "[]" cs "before_begin l" alloc a v, OF l' pos a] obtain hn where
    hn: "h (head' l) = Some hn" and
    wf: "is_list (h(a \<mapsto> \<lparr>value = v, next_node = next_node hn\<rparr>,
                      head' l \<mapsto> hn\<lparr>next_node := a\<rparr>))
                   (l\<lparr>size' := size' l + 1\<rparr>) ((a, v) # cs)"
    by (auto simp: before_begin_def BasicIterator_of_def)
  from l have "head' l \<noteq> nullptr"
    by (simp add: is_list_def)
  with hn a have "PushFront alloc h l v =
             Inr (h(a \<mapsto> \<lparr>value = v, next_node = next_node hn\<rparr>,
                    head' l \<mapsto> hn\<lparr>next_node := a\<rparr>),
                  l\<lparr>size' := size' l + 1\<rparr>)"
    by (auto simp: PushFront_def new_Node_def deref_def write_next_def)
  with hn wf show ?thesis
    by blast
qed

lemma valid_allocator_first_free:
  "valid_allocator (first_free pool)"
  by (auto simp: valid_allocator_def first_free_def find_Some_iff)

lemma position_split:
  assumes "p \<in> insert s (fst ` set cs)"
  shows "\<exists>pre post. cs = pre @ post \<and> p = last (s # map fst pre)"
proof (cases "p \<in> fst ` set cs")
  case True
  then obtain c where "c \<in> set cs" "fst c = p"
    by auto
  then obtain us vs where "cs = us @ c # vs"
    by (auto simp: in_set_conv_decomp)
  with \<open>fst c = p\<close> have "cs = (us @ [c]) @ vs \<and> p = last (s # map fst (us @ [c]))"
    by simp
  then show ?thesis
    by blast
next
  case False
  with assms have "cs = [] @ cs \<and> p = last (s # map fst [])"
    by simp
  then show ?thesis
    by blast
qed

section \<open>Facts about the comparisons\<close>

lemma std_equal_cells:
  assumes "cells h p as" "cells h q bs" "length as = length bs"
  shows "std_equal h (BasicIterator_of p) (BasicIterator_of nullptr) (BasicIterator_of q) =
           Some (Inr (elements as = elements bs))"
  using assms
proof (induction as arbitrary: p q bs)
  case Nil
  then show ?case
    by (subst std_equal.simps) (simp add: it_neq_def BasicIterator_of_def)
next
  case (Cons a as)
  from Cons.prems(3) obtain b bs' where bs: "bs = b # bs'" "length as = length bs'"
    by (cases bs) auto
  from Cons.prems(1) obtain n where n: "p = fst a" "p \<noteq> nullptr" "h p = Some n" "value n = snd a"
      "cells h (next_node n) as"
    by (auto split: option.splits)
  from Cons.prems(2) bs obtain m where m: "q = fst b" "q \<noteq> nullptr" "h q = Some m" "value m = snd b"
      "cells h (next_node m) bs'"
    by (auto split: option.splits)
  from Cons.IH [OF n(5) m(5) bs(2)]
  have IH: "std_equal h (BasicIterator_of (next_node n)) (BasicIterator_of nullptr)
              (BasicIterator_of (next_node m)) = Some (Inr (elements as = elements bs'))" .
  show ?case
    using n(2,3,4) m(2,3,4) IH bs(1)
    by (subst std_equal.simps)
      (simp add: it_neq_def it_deref_def it_pre_incr_def deref_def BasicIterator_of_def)
qed

lemma std_lexicographical_compare_cells:
  assumes "cells h p as" "cells h q bs"
  shows "std_lexicographical_compare h (BasicIterator_of p) (BasicIterator_of nullptr)
           (BasicIterator_of q) (BasicIterator_of nullptr) =
           Some (Inr (ord_class.lexordp (elements as) (elements bs)))"
  using assms
proof (induction as arbitrary: p q bs)
  case Nil
  then show ?case
    by (subst std_lexicographical_compare.simps, cases bs)
      (auto simp: it_neq_def it_eq_def BasicIterator_of_def)
next
  case (Cons a as)
  from Cons.prems(1) obtain n where n: "p = fst a" "p \<noteq> nullptr" "h p = Some n" "value n = snd a"
      "cells h (next_node n) as"
    by (auto split: option.splits)
  show ?case
  proof (cases bs)
    case Nil
    with Cons.prems(2) n(2) show ?thesis
      by (subst std_lexicographical_compare.simps)
        (simp add: it_neq_def it_eq_def BasicIterator_of_def)
  next
    case (Cons b bs')
    with Cons.prems(2) obtain m where m: "q = fst b" "q \<noteq> nullptr" "h q = Some m"
        "value m = snd b" "cells h (next_node m) bs'"
      by (auto split: option.splits)
    from Cons.IH [OF n(5) m(5)]
    have IH: "std_lexicographical_compare h (BasicIterator_of (next_node n))
                (BasicIterator_of nullptr) (BasicIterator_of (next_node m))
                (BasicIterator_of nullptr) = Some (Inr (ord_class.lexordp (elements as) (elements bs')))" .
    show ?thesis
      using n(2,3,4) m(2,3,4) IH Cons
      by (subst std_lexicographical_compare.simps)
        (simp add: it_neq_def it_eq_def it_deref_def it_pre_incr_def deref_def
          BasicIterator_of_def)
  qed
qed


lemma cbegin_list:
  assumes "is_list h l cs"
  shows "\<exists>p. cbegin h l = Inr (BasicIterator_of p) \<and> cells h p cs"
  using assms
  by (auto simp: is_list_def cbegin_def begin_it_def deref_def split: option.splits)

lemma operator_eq_list:
  assumes "is_list h A as" "is_list h B bs"
  shows "operator_eq h A B = Some (Inr (elements as = elements bs))"
proof -
  from cbegin_list [OF assms(1)] obtain p
    where p: "cbegin h A = Inr (BasicIterator_of p)" "cells h p as"
    by blast
  from cbegin_list [OF assms(2)] obtain q
    where q: "cbegin h B = Inr (BasicIterator_of q)" "cells h q bs"
    by blast
  from assms have sizes: "unat (size' A) = length as" "unat (size' B) = length bs"
    by (simp_all add: is_list_def)
  show ?thesis
  proof (cases "GetSize A = GetSize B")
    case True
    with sizes have len: "length as = length bs"
      by (simp add: GetSize_def)
    from std_equal_cells [OF p(2) q(2) len] True p(1) q(1) show ?thesis
      by (simp add: operator_eq_def cend_def)
  next
    case False
    with sizes have "length as \<noteq> length bs"
      by (auto simp: GetSize_def word_unat_eq_iff)
    then have "elements as \<noteq> elements bs"
      by (metis length_map)
    with False show ?thesis
      by (simp add: operator_eq_def)
  qed
qed

lemma operator_less_list:
  assumes "is_list h A as" "is_list h B bs"
  shows "operator_less h A B = Some (Inr (ord_class.lexordp (elements as) (elements bs)))"
proof -
  from cbegin_list [OF assms(1)] obtain p
    where p: "cbegin h A = Inr (BasicIterator_of p)" "cells h p as"
    by blast
  from cbegin_list [OF assms(2)] obtain q
    where q: "cbegin h B = Inr (BasicIterator_of q)" "cells h q bs"
    by blast
  from std_lexicographical_compare_cells [OF p(2) q(2)] p(1) q(1) show ?thesis
    by (simp add: operator_less_def cend_def)
qed

lemma example_lists:
  "is_list example_store example_A [(2, 1), (3, 2)]"
  "is_list example_store example_B [(5, 1), (6, 2), (7, 0)]"
  "is_list example_store example_E []"
  unfolding is_list_def example_store_def example_A_def example_B_def example_E_def
  by simp_all

section \<open>Facts about positions and effects\<close>

lemma is_list_frame:
  assumes "is_list h l cs" and "\<And>q. q \<in> footprint l cs \<Longrightarrow> h' q = h q"
  shows "is_list h' l cs"
proof -
  from assms(1) obtain hn where hn: "h (head' l) = Some hn" "head' l \<noteq> nullptr"
      "cells h (next_node hn) cs" "unat (size' l) = length cs"
    by (auto simp: is_list_def split: option.splits)
  from hn(3) have "cells h' (next_node hn) cs"
    by (rule path_frame) (simp add: assms(2) footprint_def)
  moreover have "h' (head' l) = Some hn"
    using hn(1) assms(2) [of "head' l"] by (simp add: footprint_def)
  ultimately show ?thesis
    using hn(2,4) by (simp add: is_list_def)
qed

lemma footprint_live:
  assumes "is_list h l cs"
  shows "footprint l cs \<subseteq> dom h" and "nullptr \<notin> footprint l cs"
proof -
  from is_list_sentinel_cells [OF assms] obtain d
    where c: "cells h (head' l) ((head' l, d) # cs)" ..
  have "q \<noteq> nullptr \<and> h q \<noteq> None" if "q \<in> footprint l cs" for q
    using path_live_addr [OF c, of q] that by (simp add: footprint_def)
  then show "footprint l cs \<subseteq> dom h" and "nullptr \<notin> footprint l cs"
    by auto
qed

lemma std_distance_cells:
  assumes "cells h p cs"
  shows "std_distance h (BasicIterator_of p) (BasicIterator_of nullptr) n =
           Some (Inr (n + length cs))"
  using assms
proof (induction cs arbitrary: p n)
  case Nil
  then show ?case
    by (subst std_distance.simps) (simp add: it_neq_def BasicIterator_of_def)
next
  case (Cons c cs)
  from Cons.prems obtain m where m: "p \<noteq> nullptr" "h p = Some m" "cells h (next_node m) cs"
    by (auto split: option.splits)
  from Cons.IH [OF m(3), of "Suc n"] m(1,2) show ?case
    by (subst std_distance.simps)
      (simp add: it_neq_def it_pre_incr_def deref_def BasicIterator_of_def)
qed

lemma advance_position:
  assumes "cells h p cs" and "advance h (BasicIterator_of p) k = Inr pos"
  shows "node' pos = nullptr \<or> (\<exists>pre c post. cs = pre @ c # post \<and> length pre = k \<and> node' pos = fst c)"
  using assms
proof (induction k arbitrary: p cs)
  case 0
  then show ?case
    by (cases cs) (auto simp: BasicIterator_of_def)
next
  case (Suc k)
  show ?case
  proof (cases cs)
    case Nil
    with Suc.prems show ?thesis
      by (simp add: it_pre_incr_def BasicIterator_of_def)
  next
    case (Cons c cs')
    with Suc.prems(1) obtain m where m: "p = fst c" "p \<noteq> nullptr" "h p = Some m"
        "cells h (next_node m) cs'"
      by (auto split: option.splits)
    from Suc.prems(2) m(2,3) have "advance h (BasicIterator_of (next_node m)) k = Inr pos"
      by (simp add: it_pre_incr_def deref_def BasicIterator_of_def)
    from Suc.IH [OF m(4) this] show ?thesis
    proof
      assume "node' pos = nullptr"
      then show ?thesis ..
    next
      assume "\<exists>pre d post. cs' = pre @ d # post \<and> length pre = k \<and> node' pos = fst d"
      then obtain pre d post where "cs' = pre @ d # post" "length pre = k" "node' pos = fst d"
        by blast
      with Cons have "cs = (c # pre) @ d # post \<and> length (c # pre) = Suc k \<and> node' pos = fst d"
        by simp
      then show ?thesis
        by blast
    qed
  qed
qed

lemma advance_before_begin:
  assumes "is_list h l cs" and "advance h (before_begin l) k = Inr pos"
  shows "node' pos = nullptr \<or>
         (\<exists>pre post. cs = pre @ post \<and> node' pos = last (head' l # map fst pre))"
proof -
  from is_list_sentinel_cells [OF assms(1)] obtain d
    where c: "cells h (head' l) ((head' l, d) # cs)" ..
  from assms(2) have "advance h (BasicIterator_of (head' l)) k = Inr pos"
    by (simp add: before_begin_def)
  from advance_position [OF c this] show ?thesis
  proof
    assume "node' pos = nullptr"
    then show ?thesis ..
  next
    assume "\<exists>pre c post. (head' l, d) # cs = pre @ c # post \<and> length pre = k \<and> node' pos = fst c"
    then obtain pre c post where split: "(head' l, d) # cs = pre @ c # post" "node' pos = fst c"
      by blast
    show ?thesis
    proof (cases pre)
      case Nil
      with split have "cs = [] @ cs \<and> node' pos = last (head' l # map fst [])"
        by auto
      then show ?thesis
        by blast
    next
      case (Cons s pre')
      with split have "cs = (pre' @ [c]) @ post \<and> node' pos = last (head' l # map fst (pre' @ [c]))"
        by auto
      then show ?thesis
        by blast
    qed
  qed
qed


lemma unchanged_outside_insert:
  assumes "h a = None" and "p \<in> F"
  shows "unchanged_outside F h (h(a \<mapsto> x, p \<mapsto> y))"
  using assms by (auto simp: unchanged_outside_def)

lemma unchanged_outside_erase:
  assumes "p \<in> F" and "c \<in> F"
  shows "unchanged_outside F h ((h(p \<mapsto> y))(c := None))"
  using assms by (auto simp: unchanged_outside_def)

lemma unchanged_outside_refl:
  "unchanged_outside F h h"
  by (simp add: unchanged_outside_def)

lemma position_in_footprint:
  "last (head' l # map fst pre) \<in> footprint l (pre @ post)"
  by (cases pre rule: rev_cases) (auto simp: footprint_def)

lemma InsertAfter_effect:
  assumes l: "is_list h l cs" and ok: "valid_allocator alloc"
    and pos: "advance h (before_begin l) k = Inr pos"
    and run: "InsertAfter alloc h l pos v = Inr (h', l', it)"
  shows "\<exists>cs'. is_list h' l' cs' \<and> footprint l' cs' \<subseteq> footprint l cs \<union> (UNIV - dom h) \<and>
           unchanged_outside (footprint l cs) h h'"
proof -
  from run have nonnull: "node' pos \<noteq> nullptr"
    by (auto simp: InsertAfter_def split: if_splits)
  with run obtain a where a: "alloc h = Some a"
    by (cases "alloc h") (auto simp: InsertAfter_def new_Node_def)
  with ok have fresh: "a \<noteq> nullptr" "h a = None"
    by (auto simp: valid_allocator_def)
  from advance_before_begin [OF l pos] nonnull obtain pre post
    where split: "cs = pre @ post" and p: "node' pos = last (head' l # map fst pre)"
    by blast
  from l split have l': "is_list h l (pre @ post)"
    by simp
  from InsertAfter_at [of h l pre post pos alloc a v, OF l' p a fresh] obtain pn where
    ins: "h (node' pos) = Some pn"
      "InsertAfter alloc h l pos v =
             Inr (h(a \<mapsto> \<lparr>value = v, next_node = next_node pn\<rparr>,
                    node' pos \<mapsto> pn\<lparr>next_node := a\<rparr>),
                  l\<lparr>size' := size' l + 1\<rparr>, BasicIterator_of a)"
      "is_list (h(a \<mapsto> \<lparr>value = v, next_node = next_node pn\<rparr>,
                      node' pos \<mapsto> pn\<lparr>next_node := a\<rparr>))
                   (l\<lparr>size' := size' l + 1\<rparr>) (pre @ (a, v) # post)"
    by blast
  from ins(2) run have
    h': "h' = h(a \<mapsto> \<lparr>value = v, next_node = next_node pn\<rparr>, node' pos \<mapsto> pn\<lparr>next_node := a\<rparr>)" and
    l'_def: "l' = l\<lparr>size' := size' l + 1\<rparr>"
    by simp_all
  from ins(3) have wf: "is_list h' l' (pre @ (a, v) # post)"
    by (simp add: h' l'_def)
  have hd: "head' l' = head' l"
    by (simp add: l'_def)
  have inF: "node' pos \<in> footprint l cs"
    unfolding split p by (rule position_in_footprint)
  have "footprint l' (pre @ (a, v) # post) \<subseteq> footprint l cs \<union> (UNIV - dom h)"
    using fresh(2) by (auto simp: footprint_def split hd)
  moreover have "unchanged_outside (footprint l cs) h h'"
    unfolding h' using fresh(2) inF by (rule unchanged_outside_insert)
  ultimately show ?thesis
    using wf by blast
qed

lemma PushFront_effect:
  assumes l: "is_list h l cs" and ok: "valid_allocator alloc"
    and run: "PushFront alloc h l v = Inr (h', l')"
  shows "\<exists>cs'. is_list h' l' cs' \<and> footprint l' cs' \<subseteq> footprint l cs \<union> (UNIV - dom h) \<and>
           unchanged_outside (footprint l cs) h h'"
proof -
  from run obtain a where a: "alloc h = Some a"
    by (cases "alloc h") (auto simp: PushFront_def new_Node_def split: sum.splits)
  with ok have fresh: "a \<noteq> nullptr" "h a = None"
    by (auto simp: valid_allocator_def)
  from PushFront_list [of h l cs alloc a v, OF l a fresh] obtain hn where
    push: "h (head' l) = Some hn"
      "PushFront alloc h l v =
             Inr (h(a \<mapsto> \<lparr>value = v, next_node = next_node hn\<rparr>,
                    head' l \<mapsto> hn\<lparr>next_node := a\<rparr>),
                  l\<lparr>size' := size' l + 1\<rparr>)"
      "is_list (h(a \<mapsto> \<lparr>value = v, next_node = next_node hn\<rparr>,
                      head' l \<mapsto> hn\<lparr>next_node := a\<rparr>))
                   (l\<lparr>size' := size' l + 1\<rparr>) ((a, v) # cs)"
    by blast
  from push(2) run have
    h': "h' = h(a \<mapsto> \<lparr>value = v, next_node = next_node hn\<rparr>, head' l \<mapsto> hn\<lparr>next_node := a\<rparr>)" and
    l'_def: "l' = l\<lparr>size' := size' l + 1\<rparr>"
    by simp_all
  from push(3) have wf: "is_list h' l' ((a, v) # cs)"
    by (simp add: h' l'_def)
  have hd: "head' l' = head' l"
    by (simp add: l'_def)
  have "footprint l' ((a, v) # cs) \<subseteq> footprint l cs \<union> (UNIV - dom h)"
    using fresh(2) by (auto simp: footprint_def hd)
  moreover have "unchanged_outside (footprint l cs) h h'"
    unfolding h' using fresh(2) by (rule unchanged_outside_insert) (simp add: footprint_def)
  ultimately show ?thesis
    using wf by blast
qed

lemma EraseAfter_effect:
  assumes l: "is_list h l cs"
    and pos: "advance h (before_begin l) k = Inr pos"
    and run: "EraseAfter h l pos = Inr (h', l', it)"
  shows "\<exists>cs'. is_list h' l' cs' \<and> footprint l' cs' \<subseteq> footprint l cs \<union> (UNIV - dom h) \<and>
           unchanged_outside (footprint l cs) h h'"
proof -
  from run have nonnull: "node' pos \<noteq> nullptr"
    by (auto simp: EraseAfter_def split: if_splits)
  from advance_before_begin [OF l pos] nonnull obtain pre post
    where split: "cs = pre @ post" and p: "node' pos = last (head' l # map fst pre)"
    by blast
  from l split have l': "is_list h l (pre @ post)"
    by simp
  have "post \<noteq> []"
  proof
    assume "post = []"
    with l' have l0: "is_list h l (pre @ [])"
      by simp
    from l0 p obtain before x d pn where
      "(head' l, d) # pre = before @ [(node' pos, x)]"
      "cells h (head' l) (before @ (node' pos, x) # [])"
      "h (node' pos) = Some pn" "node' pos \<noteq> nullptr" "cells h (next_node pn) []"
      by (rule is_list_position)
    with run show False
      by (simp add: EraseAfter_def deref_def)
  qed
  then obtain c post' where post: "post = c # post'"
    by (cases post) auto
  with l' have l'': "is_list h l (pre @ c # post')"
    by simp
  from EraseAfter_at [of h l pre c post' pos, OF l'' p] obtain pn cn where
    er: "h (node' pos) = Some pn" "h (fst c) = Some cn"
      "EraseAfter h l pos =
             Inr ((h(node' pos \<mapsto> pn\<lparr>next_node := next_node cn\<rparr>))(fst c := None),
                  l\<lparr>size' := size' l - 1\<rparr>, BasicIterator_of (next_node cn))"
      "is_list ((h(node' pos \<mapsto> pn\<lparr>next_node := next_node cn\<rparr>))(fst c := None))
                   (l\<lparr>size' := size' l - 1\<rparr>) (pre @ post')"
    by blast
  from er(3) run have
    h': "h' = (h(node' pos \<mapsto> pn\<lparr>next_node := next_node cn\<rparr>))(fst c := None)" and
    l'_def: "l' = l\<lparr>size' := size' l - 1\<rparr>"
    by simp_all
  from er(4) have wf: "is_list h' l' (pre @ post')"
    by (simp add: h' l'_def)
  have hd: "head' l' = head' l"
    by (simp add: l'_def)
  have inF: "node' pos \<in> footprint l cs"
    unfolding split p by (rule position_in_footprint)
  have cF: "fst c \<in> footprint l cs"
    by (simp add: footprint_def split post)
  have "footprint l' (pre @ post') \<subseteq> footprint l cs \<union> (UNIV - dom h)"
    by (auto simp: footprint_def split post hd)
  moreover have "unchanged_outside (footprint l cs) h h'"
    unfolding h' using inF cF by (rule unchanged_outside_erase)
  ultimately show ?thesis
    using wf by blast
qed

lemma PopFront_effect:
  assumes l: "is_list h l cs"
    and run: "PopFront h l = Inr (h', l')"
  shows "\<exists>cs'. is_list h' l' cs' \<and> footprint l' cs' \<subseteq> footprint l cs \<union> (UNIV - dom h) \<and>
           unchanged_outside (footprint l cs) h h'"
proof (cases cs)
  case Nil
  with l have "IsEmpty l"
    by (simp add: is_list_Nil_IsEmpty)
  with run have "h' = h" "l' = l"
    by (simp_all add: PopFront_empty)
  with l show ?thesis
    by (auto simp: unchanged_outside_refl)
next
  case (Cons c cs')
  with l have l': "is_list h l (c # cs')"
    by simp
  from PopFront_nonempty [OF l'] obtain hn fn where
    "h (head' l) = Some hn" "h (fst c) = Some fn" and
    pop: "PopFront h l =
             Inr ((h(fst c := None))(head' l \<mapsto> hn\<lparr>next_node := next_node fn\<rparr>),
                  l\<lparr>size' := size' l - 1\<rparr>)"
      "is_list ((h(fst c := None))(head' l \<mapsto> hn\<lparr>next_node := next_node fn\<rparr>))
                  (l\<lparr>size' := size' l - 1\<rparr>) cs'"
    by blast
  from pop(1) run have
    h': "h' = (h(fst c := None))(head' l \<mapsto> hn\<lparr>next_node := next_node fn\<rparr>)" and
    l'_def: "l' = l\<lparr>size' := size' l - 1\<rparr>"
    by simp_all
  from pop(2) have wf: "is_list h' l' cs'"
    by (simp add: h' l'_def)
  have hd: "head' l' = head' l"
    by (simp add: l'_def)
  have "footprint l' cs' \<subseteq> footprint l cs \<union> (UNIV - dom h)"
    by (auto simp: footprint_def Cons hd)
  moreover have "unchanged_outside (footprint l cs) h h'"
    unfolding h' by (auto simp: unchanged_outside_def footprint_def Cons)
  ultimately show ?thesis
    using wf by blast
qed

section \<open>Facts about clearing, destroying and swapping\<close>

text \<open>
  \<^verbatim>\<open>Clear\<close> needs the chain only, not the count: it deletes every node, leaves the
  sentinel with a null link, and has decremented \<^verbatim>\<open>size_\<close> once per node.
\<close>

lemma Clear_chain:
  assumes "cells h (head' l) ((head' l, d) # cs)"
  shows "\<exists>h'. Clear h l = Inr (h', l\<lparr>size' := size' l - of_nat (length cs)\<rparr>) \<and>
           cells h' (head' l) [(head' l, d)] \<and>
           (\<forall>q. q \<noteq> head' l \<and> q \<notin> fst ` set cs \<longrightarrow> h' q = h q) \<and>
           (\<forall>q \<in> fst ` set cs. h' q = None)"
  using assms
proof (induction cs arbitrary: h l)
  case Nil
  then obtain hn where "h (head' l) = Some hn" "head' l \<noteq> nullptr" "next_node hn = nullptr"
    by (auto split: option.splits)
  then have "Clear h l = Inr (h, l)"
    by (subst Clear.simps) (simp add: deref_def)
  with Nil show ?case
    by simp
next
  case (Cons c cs)
  let ?s = "head' l"
  from Cons.prems obtain hn where hn: "h ?s = Some hn" "?s \<noteq> nullptr" "value hn = d"
      "cells h (next_node hn) (c # cs)"
    by (auto split: option.splits)
  from hn(4) obtain cn where cn: "next_node hn = fst c" "fst c \<noteq> nullptr" "h (fst c) = Some cn"
      "cells h (next_node cn) cs"
    by (auto split: option.splits)
  from cells_distinct [OF Cons.prems] have dist: "?s \<noteq> fst c" "?s \<notin> fst ` set cs"
      "fst c \<notin> fst ` set cs"
    by auto
  let ?h2 = "(h(?s \<mapsto> hn\<lparr>next_node := next_node cn\<rparr>))(fst c := None)"
  let ?l2 = "l\<lparr>size' := size' l - 1\<rparr>"
  have unfold: "Clear h l = Clear ?h2 ?l2"
    using hn(1,2) cn(1,2,3) dist(1)
    by (subst Clear.simps) (simp add: deref_def write_next_def delete_Node_def)
  have "cells ?h2 (next_node cn) cs"
    using cn(4) dist(2,3) by (simp add: path_upd_other)
  then have "cells ?h2 (head' ?l2) ((head' ?l2, d) # cs)"
    using hn(2,3) dist(1) by simp
  from Cons.IH [OF this] obtain h' where
    h': "Clear ?h2 ?l2 = Inr (h', ?l2\<lparr>size' := size' ?l2 - of_nat (length cs)\<rparr>)"
      "cells h' (head' ?l2) [(head' ?l2, d)]"
      "\<forall>q. q \<noteq> head' ?l2 \<and> q \<notin> fst ` set cs \<longrightarrow> h' q = ?h2 q"
      "\<forall>q \<in> fst ` set cs. h' q = None"
    by blast
  have size: "?l2\<lparr>size' := size' ?l2 - of_nat (length cs)\<rparr> =
              l\<lparr>size' := size' l - of_nat (length (c # cs))\<rparr>"
    by simp
  have "Clear h l = Inr (h', l\<lparr>size' := size' l - of_nat (length (c # cs))\<rparr>)"
    using unfold h'(1) size by simp
  moreover have "cells h' (head' l) [(head' l, d)]"
    using h'(2) by simp
  moreover have "\<forall>q. q \<noteq> head' l \<and> q \<notin> fst ` set (c # cs) \<longrightarrow> h' q = h q"
    using h'(3) by simp
  moreover have "\<forall>q \<in> fst ` set (c # cs). h' q = None"
    using h'(3,4) dist by auto
  ultimately show ?case
    by blast
qed

lemma is_list_size_of_nat:
  assumes "is_list h l cs"
  shows "size' l - of_nat (length cs) = 0"
proof -
  from assms have "unat (size' l) = length cs"
    by (simp add: is_list_def)
  then have "of_nat (length cs) = size' l"
    by (metis of_nat_unat ucast_id)
  then show ?thesis
    by simp
qed

lemma Clear_list:
  assumes "is_list h l cs"
  shows "\<exists>h'. Clear h l = Inr (h', l\<lparr>size' := 0\<rparr>) \<and> is_list h' (l\<lparr>size' := 0\<rparr>) [] \<and>
           (\<forall>q. q \<notin> footprint l cs \<longrightarrow> h' q = h q) \<and>
           (\<forall>q \<in> fst ` set cs. h' q = None)"
proof -
  from is_list_sentinel_cells [OF assms] obtain d
    where c: "cells h (head' l) ((head' l, d) # cs)" ..
  from Clear_chain [OF c] is_list_size_of_nat [OF assms] obtain h' where
    h': "Clear h l = Inr (h', l\<lparr>size' := 0\<rparr>)" "cells h' (head' l) [(head' l, d)]"
      "\<forall>q. q \<noteq> head' l \<and> q \<notin> fst ` set cs \<longrightarrow> h' q = h q" "\<forall>q \<in> fst ` set cs. h' q = None"
    by auto
  from h'(2) have "is_list h' (l\<lparr>size' := 0\<rparr>) []"
    by (intro is_listI [where d = d]) simp_all
  with h'(1,3,4) show ?thesis
    by (auto simp: footprint_def)
qed

lemma destroy_chain:
  assumes "cells h (head' l) ((head' l, d) # cs)"
  shows "\<exists>h'. SingleLinkedList_destroy h l = Inr h' \<and>
           (\<forall>q. q \<notin> footprint l cs \<longrightarrow> h' q = h q) \<and>
           (\<forall>q \<in> footprint l cs. h' q = None)"
proof -
  from Clear_chain [OF assms] obtain h1 where
    h1: "Clear h l = Inr (h1, l\<lparr>size' := size' l - of_nat (length cs)\<rparr>)"
      "\<forall>q. q \<noteq> head' l \<and> q \<notin> fst ` set cs \<longrightarrow> h1 q = h q" "\<forall>q \<in> fst ` set cs. h1 q = None"
    by blast
  let ?h' = "h1(head' l := None)"
  have "SingleLinkedList_destroy h l = Inr ?h'"
    using h1(1) by (simp add: SingleLinkedList_destroy_def)
  moreover have "\<forall>q. q \<notin> footprint l cs \<longrightarrow> ?h' q = h q"
    using h1(2) by (simp add: footprint_def)
  moreover have "\<forall>q \<in> footprint l cs. ?h' q = None"
    using h1(3) by (auto simp: footprint_def)
  ultimately show ?thesis
    by blast
qed

lemma swap_chains:
  assumes A: "cells h (head' A) ((head' A, d) # as)"
    and B: "cells h (head' B) ((head' B, e) # bs)"
    and disj: "footprint A as \<inter> footprint B bs = {}"
  shows "\<exists>h'. swap h A B = Inr (h', A\<lparr>size' := size' B\<rparr>, B\<lparr>size' := size' A\<rparr>) \<and>
           cells h' (head' A) ((head' A, d) # bs) \<and>
           cells h' (head' B) ((head' B, e) # as) \<and>
           (\<forall>q. q \<noteq> head' A \<and> q \<noteq> head' B \<longrightarrow> h' q = h q)"
proof -
  from A obtain an where an: "h (head' A) = Some an" "head' A \<noteq> nullptr" "value an = d"
      "cells h (next_node an) as"
    by (auto split: option.splits)
  from B obtain bn where bn: "h (head' B) = Some bn" "head' B \<noteq> nullptr" "value bn = e"
      "cells h (next_node bn) bs"
    by (auto split: option.splits)
  from disj have neq: "head' A \<noteq> head' B" and cross: "head' A \<notin> fst ` set bs" "head' B \<notin> fst ` set as"
    by (auto simp: footprint_def)
  from cells_head_not_in_tail [OF A] cells_head_not_in_tail [OF B]
  have own: "head' A \<notin> fst ` set as" "head' B \<notin> fst ` set bs"
    by simp_all
  let ?h' = "h(head' A \<mapsto> an\<lparr>next_node := next_node bn\<rparr>, head' B \<mapsto> bn\<lparr>next_node := next_node an\<rparr>)"
  have "swap h A B = Inr (?h', A\<lparr>size' := size' B\<rparr>, B\<lparr>size' := size' A\<rparr>)"
    using an(1,2) bn(1,2) neq by (simp add: swap_def deref_def write_next_def)
  moreover have "cells ?h' (next_node bn) bs"
    using bn(4) cross(1) own(2) by (simp add: path_upd_other)
  then have "cells ?h' (head' A) ((head' A, d) # bs)"
    using an(2,3) neq by simp
  moreover have "cells ?h' (next_node an) as"
    using an(4) cross(2) own(1) by (simp add: path_upd_other)
  then have "cells ?h' (head' B) ((head' B, e) # as)"
    using bn(2,3) neq by simp
  moreover have "\<forall>q. q \<noteq> head' A \<and> q \<noteq> head' B \<longrightarrow> ?h' q = h q"
    by simp
  ultimately show ?thesis
    by blast
qed

lemma swap_self:
  assumes "cells h (head' A) ((head' A, d) # as)"
  shows "swap h A A = Inr (h, A, A)"
proof -
  from assms obtain an where an: "h (head' A) = Some an" "head' A \<noteq> nullptr"
    by (auto split: option.splits)
  then have "h(head' A \<mapsto> an) = h"
    by (simp add: fun_upd_idem)
  with an show ?thesis
    by (simp add: swap_def deref_def write_next_def)
qed

lemma swap_and_drop_chains:
  assumes self: "cells h (head' self) ((head' self, d) # cs)"
    and temp: "is_list h temp ts"
    and disj: "footprint self cs \<inter> footprint temp ts = {}"
  shows "\<exists>h'. swap_and_drop h self temp = Inr (h', self\<lparr>size' := size' temp\<rparr>) \<and>
           is_list h' (self\<lparr>size' := size' temp\<rparr>) ts \<and>
           (\<forall>q. q \<notin> footprint self cs \<union> footprint temp ts \<longrightarrow> h' q = h q) \<and>
           (\<forall>q \<in> insert (head' temp) (fst ` set cs). h' q = None)"
proof -
  from is_list_sentinel_cells [OF temp] obtain e
    where tc: "cells h (head' temp) ((head' temp, e) # ts)" ..
  from swap_chains [OF self tc disj] obtain h1 where
    h1: "swap h self temp = Inr (h1, self\<lparr>size' := size' temp\<rparr>, temp\<lparr>size' := size' self\<rparr>)"
      "cells h1 (head' self) ((head' self, d) # ts)"
      "cells h1 (head' temp) ((head' temp, e) # cs)"
      "\<forall>q. q \<noteq> head' self \<and> q \<noteq> head' temp \<longrightarrow> h1 q = h q"
    by blast
  let ?self1 = "self\<lparr>size' := size' temp\<rparr>" and ?temp1 = "temp\<lparr>size' := size' self\<rparr>"
  from h1(3) have "cells h1 (head' ?temp1) ((head' ?temp1, e) # cs)"
    by simp
  from destroy_chain [OF this] obtain h2 where
    h2: "SingleLinkedList_destroy h1 ?temp1 = Inr h2"
      "\<forall>q. q \<notin> footprint ?temp1 cs \<longrightarrow> h2 q = h1 q"
      "\<forall>q \<in> footprint ?temp1 cs. h2 q = None"
    by blast
  have run: "swap_and_drop h self temp = Inr (h2, ?self1)"
    using h1(1) h2(1) by (simp add: swap_and_drop_def)
  from cells_distinct [OF h1(2)] cells_distinct [OF h1(3)] cells_distinct [OF self]
    cells_distinct [OF tc] disj
  have apart: "footprint ?self1 ts \<inter> footprint ?temp1 cs = {}"
    by (auto simp: footprint_def)
  have "cells h2 (head' self) ((head' self, d) # ts)"
    using h1(2)
  proof (rule path_frame)
    fix q
    assume "q \<in> fst ` set ((head' self, d) # ts)"
    then have "q \<in> footprint ?self1 ts"
      by (simp add: footprint_def)
    with apart have "q \<notin> footprint ?temp1 cs"
      by blast
    with h2(2) show "h2 q = h1 q"
      by blast
  qed
  moreover from temp have "unat (size' ?self1) = length ts"
    by (simp add: is_list_def)
  ultimately have wf: "is_list h2 ?self1 ts"
    by (intro is_listI [where d = d]) simp_all
  have "\<forall>q. q \<notin> footprint self cs \<union> footprint temp ts \<longrightarrow> h2 q = h q"
    using h1(4) h2(2) by (auto simp: footprint_def)
  moreover have "\<forall>q \<in> insert (head' temp) (fst ` set cs). h2 q = None"
    using h2(3) by (simp add: footprint_def)
  ultimately show ?thesis
    using run wf by blast
qed

lemma unchanged_outside_trans:
  assumes "unchanged_outside F h h1" and "unchanged_outside F1 h1 h2"
    and "F1 \<subseteq> F \<union> (UNIV - dom h)"
  shows "unchanged_outside F h h2"
  unfolding unchanged_outside_def
proof (intro allI impI)
  fix q
  assume q: "q \<in> dom h \<and> q \<notin> F"
  with assms(1) have "h1 q = h q"
    by (simp add: unchanged_outside_def)
  moreover from q this have "q \<in> dom h1"
    by (auto simp: dom_def)
  moreover from q assms(3) have "q \<notin> F1"
    by blast
  ultimately show "h2 q = h q"
    using assms(2) by (simp add: unchanged_outside_def)
qed

section \<open>Facts about the constructors and the assignment\<close>

lemma InsertAfter_at_end:
  assumes l: "is_list h l cs" and ok: "valid_allocator alloc"
    and pos: "node' pos = last (head' l # map fst cs)"
    and run: "InsertAfter alloc h l pos v = Inr (h', l', it)"
  shows "\<exists>a. h a = None \<and> it = BasicIterator_of a \<and> is_list h' l' (cs @ [(a, v)]) \<and>
           head' l' = head' l \<and> unchanged_outside (footprint l cs) h h' \<and>
           dom h \<subseteq> dom h'"
proof -
  from l have "head' l \<noteq> nullptr"
    by (simp add: is_list_def)
  from run have nonnull: "node' pos \<noteq> nullptr"
    by (auto simp: InsertAfter_def split: if_splits)
  with run obtain a where a: "alloc h = Some a"
    by (cases "alloc h") (auto simp: InsertAfter_def new_Node_def)
  with ok have fresh: "a \<noteq> nullptr" "h a = None"
    by (auto simp: valid_allocator_def)
  from l have l': "is_list h l (cs @ [])"
    by simp
  from InsertAfter_at [of h l cs "[]" pos alloc a v, OF l' pos a fresh] obtain pn where
    ins: "h (node' pos) = Some pn"
      "InsertAfter alloc h l pos v =
             Inr (h(a \<mapsto> \<lparr>value = v, next_node = next_node pn\<rparr>,
                    node' pos \<mapsto> pn\<lparr>next_node := a\<rparr>),
                  l\<lparr>size' := size' l + 1\<rparr>, BasicIterator_of a)"
      "is_list (h(a \<mapsto> \<lparr>value = v, next_node = next_node pn\<rparr>,
                      node' pos \<mapsto> pn\<lparr>next_node := a\<rparr>))
                   (l\<lparr>size' := size' l + 1\<rparr>) (cs @ [(a, v)])"
    by blast
  from ins(2) run have
    h': "h' = h(a \<mapsto> \<lparr>value = v, next_node = next_node pn\<rparr>, node' pos \<mapsto> pn\<lparr>next_node := a\<rparr>)" and
    l'_def: "l' = l\<lparr>size' := size' l + 1\<rparr>" and it: "it = BasicIterator_of a"
    by simp_all
  have inF: "node' pos \<in> footprint l cs"
    using position_in_footprint [of l cs "[]"] pos by simp
  have "unchanged_outside (footprint l cs) h h'"
    unfolding h' using fresh(2) inF by (rule unchanged_outside_insert)
  moreover have "dom h \<subseteq> dom h'"
    unfolding h' by auto
  ultimately show ?thesis
    using fresh(2) it ins(3) by (auto simp: h' l'_def)
qed

lemma insert_all_list:
  assumes "valid_allocator alloc" and "is_list h temp cs"
    and "node' current = last (head' temp # map fst cs)"
    and "insert_all alloc h temp current vs = Inr (h', temp', current')"
  shows "\<exists>new. is_list h' temp' (cs @ new) \<and> elements new = vs \<and> head' temp' = head' temp \<and>
           fst ` set new \<inter> dom h = {} \<and> unchanged_outside (footprint temp cs) h h' \<and>
           dom h \<subseteq> dom h'"
  using assms(2-)
proof (induction vs arbitrary: h temp current cs)
  case Nil
  from Nil(3) have same: "h' = h" "temp' = temp"
    by simp_all
  have "is_list h temp (cs @ [])"
    using Nil(1) by simp
  moreover have "unchanged_outside (footprint temp cs) h h"
    by (rule unchanged_outside_refl)
  ultimately have "is_list h' temp' (cs @ []) \<and> elements [] = [] \<and> head' temp' = head' temp \<and>
     fst ` set [] \<inter> dom h = {} \<and> unchanged_outside (footprint temp cs) h h' \<and> dom h \<subseteq> dom h'"
    unfolding same by simp
  then show ?case
    by (rule exI [where x = "[]"])
next
  case (Cons v vs)
  from Cons.prems(3) obtain h1 temp1 it1 where
    first: "InsertAfter alloc h temp current v = Inr (h1, temp1, it1)" and
    rest: "insert_all alloc h1 temp1 it1 vs = Inr (h', temp', current')"
    by (auto split: sum.splits)
  from InsertAfter_at_end [OF Cons.prems(1) assms(1) Cons.prems(2) first] obtain a where
    a: "h a = None" "it1 = BasicIterator_of a" "is_list h1 temp1 (cs @ [(a, v)])"
      "head' temp1 = head' temp" "unchanged_outside (footprint temp cs) h h1" "dom h \<subseteq> dom h1"
    by blast
  have pos1: "node' it1 = last (head' temp1 # map fst (cs @ [(a, v)]))"
    using a(2) by (simp add: BasicIterator_of_def)
  from Cons.IH [OF a(3) pos1 rest] obtain new where
    new: "is_list h' temp' ((cs @ [(a, v)]) @ new)" "elements new = vs" "head' temp' = head' temp1"
      "fst ` set new \<inter> dom h1 = {}"
      "unchanged_outside (footprint temp1 (cs @ [(a, v)])) h1 h'" "dom h1 \<subseteq> dom h'"
    by blast
  have sub: "footprint temp1 (cs @ [(a, v)]) \<subseteq> footprint temp cs \<union> (UNIV - dom h)"
    using a(1,4) by (auto simp: footprint_def)
  have "is_list h' temp' (cs @ (a, v) # new)"
    using new(1) by simp
  moreover have "elements ((a, v) # new) = v # vs"
    using new(2) by simp
  moreover have "head' temp' = head' temp"
    using new(3) a(4) by simp
  moreover have "fst ` set ((a, v) # new) \<inter> dom h = {}"
  proof -
    from new(4) a(6) have "fst ` set new \<inter> dom h = {}"
      by blast
    with a(1) show ?thesis
      by (simp add: dom_def)
  qed
  moreover have "unchanged_outside (footprint temp cs) h h'"
    using a(5) new(5) sub by (rule unchanged_outside_trans)
  moreover have "dom h \<subseteq> dom h'"
    using a(6) new(6) by blast
  ultimately show ?case
    by (intro exI [where x = "(a, v) # new"] conjI)
qed

lemma unchanged_outsideD:
  "unchanged_outside F h h' \<Longrightarrow> h q = Some n \<Longrightarrow> q \<notin> F \<Longrightarrow> h' q = Some n"
  by (auto simp: unchanged_outside_def)

lemma path_unchanged_outside:
  assumes "path h p cs q" and "unchanged_outside F h h'" and "fst ` set cs \<inter> F = {}"
  shows "path h' p cs q"
  using assms(1)
proof (rule path_frame)
  fix a
  assume a: "a \<in> fst ` set cs"
  with path_live_addr [OF assms(1)] have "a \<in> dom h"
    by auto
  moreover from a assms(3) have "a \<notin> F"
    by blast
  ultimately show "h' a = h a"
    using assms(2) by (simp add: unchanged_outside_def)
qed

lemma copy_all_list:
  assumes ok: "valid_allocator alloc"
    and temp: "is_list h temp cs"
    and cur: "node' current = last (head' temp # map fst cs)"
    and src: "cells h p rest"
    and apart: "fst ` set rest \<inter> footprint temp cs = {}"
  shows "\<exists>r. copy_all alloc h temp current (BasicIterator_of p) (BasicIterator_of nullptr) = Some r \<and>
           (\<forall>h' temp' current'. r = Inr (h', temp', current') \<longrightarrow>
              (\<exists>new. is_list h' temp' (cs @ new) \<and> elements new = elements rest \<and>
                 head' temp' = head' temp \<and> fst ` set new \<inter> dom h = {} \<and>
                 unchanged_outside (footprint temp cs) h h' \<and> dom h \<subseteq> dom h'))"
  using temp cur src apart
proof (induction rest arbitrary: h temp current cs p)
  case Nil
  then have "copy_all alloc h temp current (BasicIterator_of p) (BasicIterator_of nullptr) =
               Some (Inr (h, temp, current))"
    by (subst copy_all.simps) (simp add: it_neq_def BasicIterator_of_def)
  moreover have "is_list h temp (cs @ []) \<and> elements [] = elements [] \<and>
     head' temp = head' temp \<and> fst ` set [] \<inter> dom h = {} \<and>
     unchanged_outside (footprint temp cs) h h \<and> dom h \<subseteq> dom h"
    using Nil(1) by (simp add: unchanged_outside_refl)
  then have "\<exists>new. is_list h temp (cs @ new) \<and> elements new = elements [] \<and>
     head' temp = head' temp \<and> fst ` set new \<inter> dom h = {} \<and>
     unchanged_outside (footprint temp cs) h h \<and> dom h \<subseteq> dom h"
    by (rule exI [where x = "[]"])
  ultimately show ?case
    by simp
next
  case (Cons c rest)
  from Cons.prems(3) obtain n where n: "p = fst c" "p \<noteq> nullptr" "h p = Some n" "value n = snd c"
      "cells h (next_node n) rest"
    by (auto split: option.splits)
  from Cons.prems(4) n(1) have p_out: "p \<notin> footprint temp cs"
    and rest_out: "fst ` set rest \<inter> footprint temp cs = {}"
    by auto
  from cells_head_not_in_tail [OF Cons.prems(3)] n(1) have p_rest: "p \<notin> fst ` set rest"
    by simp
  let ?it = "BasicIterator_of p" and ?end = "BasicIterator_of nullptr"
  have unfold: "copy_all alloc h temp current ?it ?end =
     (case InsertAfter alloc h temp current (snd c) of
        Inl e \<Rightarrow> Some (Inl e)
      | Inr (h1, temp1, current1) \<Rightarrow>
     (case it_pre_incr h1 ?it of
        Inl e \<Rightarrow> Some (Inl (e, h1, temp1))
      | Inr it1 \<Rightarrow> copy_all alloc h1 temp1 current1 it1 ?end))"
    using n(2,3,4)
    by (subst copy_all.simps) (simp add: it_neq_def it_deref_def deref_def BasicIterator_of_def)
  show ?case
  proof (cases "InsertAfter alloc h temp current (snd c)")
    case (Inl e)
    with unfold show ?thesis
      by simp
  next
    case (Inr res)
    then obtain h1 temp1 it1 where
      first: "InsertAfter alloc h temp current (snd c) = Inr (h1, temp1, it1)"
      by (cases res) auto
    from InsertAfter_at_end [OF Cons.prems(1) ok Cons.prems(2) first] obtain a where
      a: "h a = None" "it1 = BasicIterator_of a" "is_list h1 temp1 (cs @ [(a, snd c)])"
        "head' temp1 = head' temp" "unchanged_outside (footprint temp cs) h h1" "dom h \<subseteq> dom h1"
      by blast
    have pos1: "node' it1 = last (head' temp1 # map fst (cs @ [(a, snd c)]))"
      using a(2) by (simp add: BasicIterator_of_def)
    from unchanged_outsideD [OF a(5) n(3) p_out] have h1p: "h1 p = Some n" .
    from n(5) a(5) rest_out have src1: "cells h1 (next_node n) rest"
      by (rule path_unchanged_outside)
    have "a \<notin> fst ` set rest"
      using path_live_addr [OF n(5), of a] a(1) by blast
    with rest_out a(4) have apart1: "fst ` set rest \<inter> footprint temp1 (cs @ [(a, snd c)]) = {}"
      by (auto simp: footprint_def)
    from Cons.IH [OF a(3) pos1 src1 apart1] obtain r where
      r: "copy_all alloc h1 temp1 it1 (BasicIterator_of (next_node n)) ?end = Some r"
        "\<forall>h' temp' current'. r = Inr (h', temp', current') \<longrightarrow>
              (\<exists>new. is_list h' temp' ((cs @ [(a, snd c)]) @ new) \<and> elements new = elements rest \<and>
                 head' temp' = head' temp1 \<and> fst ` set new \<inter> dom h1 = {} \<and>
                 unchanged_outside (footprint temp1 (cs @ [(a, snd c)])) h1 h' \<and> dom h1 \<subseteq> dom h')"
      by blast
    have run: "copy_all alloc h temp current ?it ?end = Some r"
      using unfold first h1p n(2) r(1)
      by (simp add: it_pre_incr_def deref_def BasicIterator_of_def)
    have sub: "footprint temp1 (cs @ [(a, snd c)]) \<subseteq> footprint temp cs \<union> (UNIV - dom h)"
      using a(1,4) by (auto simp: footprint_def)
    have "\<exists>new. is_list h' temp' (cs @ new) \<and> elements new = elements (c # rest) \<and>
                 head' temp' = head' temp \<and> fst ` set new \<inter> dom h = {} \<and>
                 unchanged_outside (footprint temp cs) h h' \<and> dom h \<subseteq> dom h'"
      if "r = Inr (h', temp', current')" for h' temp' current'
    proof -
      from r(2) that obtain new where
        new: "is_list h' temp' ((cs @ [(a, snd c)]) @ new)" "elements new = elements rest"
          "head' temp' = head' temp1" "fst ` set new \<inter> dom h1 = {}"
          "unchanged_outside (footprint temp1 (cs @ [(a, snd c)])) h1 h'" "dom h1 \<subseteq> dom h'"
        by blast
      have "is_list h' temp' (cs @ (a, snd c) # new)"
        using new(1) by simp
      moreover have "elements ((a, snd c) # new) = elements (c # rest)"
        using new(2) by simp
      moreover have "head' temp' = head' temp"
        using new(3) a(4) by simp
      moreover have "fst ` set ((a, snd c) # new) \<inter> dom h = {}"
      proof -
        from new(4) a(6) have "fst ` set new \<inter> dom h = {}"
          by blast
        with a(1) show ?thesis
          by (simp add: dom_def)
      qed
      moreover have "unchanged_outside (footprint temp cs) h h'"
        using a(5) new(5) sub by (rule unchanged_outside_trans)
      moreover have "dom h \<subseteq> dom h'"
        using a(6) new(6) by blast
      ultimately show ?thesis
        by (intro exI [where x = "(a, snd c) # new"] conjI)
    qed
    with run show ?thesis
      by blast
  qed
qed

text \<open>
  What both constructors share: a fresh object at \<open>this\<close> with an empty chain and an
  indeterminate count, a well-formed \<open>temp\<close> built beside it, then \<^verbatim>\<open>swap(temp)\<close> and the
  end of \<open>temp\<close>.
\<close>

lemma build_and_swap:
  fixes h :: "'a heap"
  assumes obj: "this \<noteq> nullptr" "h this = None"
    and tmp: "tmp \<noteq> nullptr" "h tmp = None" "this \<noteq> tmp"
    and built: "is_list h2 temp2 new" "head' temp2 = tmp"
      "fst ` set new \<inter> dom (h(this \<mapsto> s0, tmp \<mapsto> t0)) = {}"
      "unchanged_outside {tmp} (h(this \<mapsto> s0, tmp \<mapsto> t0)) h2"
    and s0: "next_node s0 = nullptr"
    and run: "swap_and_drop h2 \<lparr>head' = this, size' = garbage\<rparr> temp2 = Inr (h', l')"
  shows "is_list h' l' new \<and> head' l' = this \<and> footprint l' new \<inter> dom h = {} \<and>
         unchanged_outside {} h h'"
proof -
  let ?h1 = "h(this \<mapsto> s0, tmp \<mapsto> t0)"
  let ?self = "\<lparr>head' = this, size' = garbage\<rparr>"
  have "?h1 this = Some s0"
    using tmp(3) by simp
  from unchanged_outsideD [OF built(4) \<open>?h1 this = Some s0\<close>] tmp(3) have "h2 this = Some s0"
    by simp
  with obj(1) s0 have self: "cells h2 (head' ?self) ((head' ?self, value s0) # [])"
    by simp
  have this_new: "this \<notin> fst ` set new"
    using built(3) by auto
  with tmp(3) built(2) have disj: "footprint ?self [] \<inter> footprint temp2 new = {}"
    by (auto simp: footprint_def)
  from swap_and_drop_chains [OF self built(1) disj] obtain hx where
    hx: "swap_and_drop h2 ?self temp2 = Inr (hx, ?self\<lparr>size' := size' temp2\<rparr>)"
      "is_list hx (?self\<lparr>size' := size' temp2\<rparr>) new"
      "\<forall>q. q \<notin> footprint ?self ([] :: (addr \<times> 'a) list) \<union> footprint temp2 new \<longrightarrow> hx q = h2 q"
    by blast
  from hx(1) run have same: "h' = hx" and l': "l' = ?self\<lparr>size' := size' temp2\<rparr>"
    by simp_all
  from hx(2) have wf: "is_list h' l' new"
    by (simp add: same l')
  from hx(3) have frame: "\<forall>q. q \<notin> footprint ?self ([] :: (addr \<times> 'a) list) \<union> footprint temp2 new \<longrightarrow> h' q = h2 q"
    by (simp add: same)
  have "footprint l' new \<inter> dom h = {}"
    using built(3) obj(2) by (auto simp: footprint_def l')
  moreover have "unchanged_outside {} h h'"
    unfolding unchanged_outside_def
  proof (intro allI impI)
    fix q
    assume "q \<in> dom h \<and> q \<notin> {}"
    then have q: "q \<in> dom h"
      by simp
    with obj(2) tmp(2) have neq: "q \<noteq> this" "q \<noteq> tmp"
      by auto
    from q built(3) have "q \<notin> fst ` set new"
      by auto
    with neq built(2) frame have "h' q = h2 q"
      by (simp add: footprint_def)
    also from built(4) q neq have "h2 q = ?h1 q"
      by (simp add: unchanged_outside_def dom_def)
    also from neq have "?h1 q = h q"
      by simp
    finally show "h' q = h q" .
  qed
  ultimately show ?thesis
    using wf by (simp add: l')
qed

lemma fresh_temp:
  assumes "tmp \<noteq> nullptr"
  shows "is_list (h(this \<mapsto> s0, tmp \<mapsto> \<lparr>value = dflt, next_node = nullptr\<rparr>))
           \<lparr>head' = tmp, size' = 0\<rparr> []"
    and "node' (before_begin \<lparr>head' = tmp, size' = 0\<rparr>) =
           last (head' \<lparr>head' = tmp, size' = 0\<rparr> # map fst [])"
    and "footprint \<lparr>head' = tmp, size' = 0\<rparr> [] = {tmp}"
  using assms by (simp_all add: is_list_def before_begin_def BasicIterator_of_def footprint_def)

lemma init_list:
  fixes h :: "'a heap"
  assumes ok: "valid_allocator alloc"
    and obj: "this \<noteq> nullptr" "h this = None"
    and tmp: "tmp \<noteq> nullptr" "h tmp = None" "this \<noteq> tmp"
    and run: "SingleLinkedList_init alloc h this tmp dflt garbage vs = Inr (h', l')"
  shows "\<exists>cs'. is_list h' l' cs' \<and> elements cs' = vs \<and> head' l' = this \<and>
           footprint l' cs' \<inter> dom h = {} \<and> unchanged_outside {} h h'"
proof -
  let ?s0 = "\<lparr>value = dflt, next_node = nullptr\<rparr>"
  let ?h1 = "h(this \<mapsto> ?s0, tmp \<mapsto> ?s0)"
  let ?temp = "\<lparr>head' = tmp, size' = 0\<rparr>"
  let ?self = "\<lparr>head' = this, size' = garbage\<rparr>"
  from run have "case insert_all alloc ?h1 ?temp (before_begin ?temp) vs of
      Inl e \<Rightarrow> False
    | Inr (h2, temp2, current) \<Rightarrow> swap_and_drop h2 ?self temp2 = Inr (h', l')"
    unfolding SingleLinkedList_init_def SingleLinkedList_default_def Let_def
    by (simp split: sum.splits prod.splits if_splits)
  then obtain h2 temp2 current where
    loop: "insert_all alloc ?h1 ?temp (before_begin ?temp) vs = Inr (h2, temp2, current)" and
    fin: "swap_and_drop h2 ?self temp2 = Inr (h', l')"
    by (cases "insert_all alloc ?h1 ?temp (before_begin ?temp) vs") auto
  from insert_all_list [OF ok fresh_temp(1,2) [OF tmp(1)] loop] obtain new where
    new: "is_list h2 temp2 ([] @ new)" "elements new = vs" "head' temp2 = head' ?temp"
      "fst ` set new \<inter> dom ?h1 = {}" "unchanged_outside (footprint ?temp ([] :: (addr \<times> 'a) list)) ?h1 h2"
    by blast
  from new(1) have b1: "is_list h2 temp2 new"
    by simp
  from new(3) have b2: "head' temp2 = tmp"
    by simp
  from new(5) have b4: "unchanged_outside {tmp} ?h1 h2"
    by (simp add: fresh_temp(3) [OF tmp(1)])
  have "is_list h' l' new \<and> head' l' = this \<and> footprint l' new \<inter> dom h = {} \<and>
         unchanged_outside {} h h'"
    using obj tmp b1 b2 new(4) b4 _ fin by (rule build_and_swap) simp
  with new(2) show ?thesis
    by blast
qed

lemma copy_list:
  fixes h :: "'a heap"
  assumes ok: "valid_allocator alloc"
    and other: "is_list h other os"
    and obj: "this \<noteq> nullptr" "h this = None"
    and tmp: "tmp \<noteq> nullptr" "h tmp = None" "this \<noteq> tmp"
    and run: "SingleLinkedList_copy alloc h this tmp dflt garbage other = Some (Inr (h', l'))"
  shows "\<exists>cs'. is_list h' l' cs' \<and> elements cs' = elements os \<and> head' l' = this \<and>
           footprint l' cs' \<inter> dom h = {} \<and> unchanged_outside {} h h'"
proof -
  let ?s0 = "\<lparr>value = dflt, next_node = nullptr\<rparr>"
  let ?h1 = "h(this \<mapsto> ?s0, tmp \<mapsto> ?s0)"
  let ?temp = "\<lparr>head' = tmp, size' = 0\<rparr>"
  let ?self = "\<lparr>head' = this, size' = garbage\<rparr>"
  from footprint_live(1) [OF other] obj(2) tmp(2)
  have out: "this \<notin> footprint other os" "tmp \<notin> footprint other os"
    by auto
  have other1: "is_list ?h1 other os"
    using other
  proof (rule is_list_frame)
    fix q
    assume "q \<in> footprint other os"
    with out have "q \<noteq> this" "q \<noteq> tmp"
      by auto
    then show "?h1 q = h q"
      by simp
  qed
  from cbegin_list [OF other1] obtain p where
    p: "begin_it ?h1 other = Inr (BasicIterator_of p)" "cells ?h1 p os"
    by (auto simp: cbegin_def)
  from out(2) have apart: "fst ` set os \<inter> footprint ?temp [] = {}"
    by (auto simp: footprint_def)
  from copy_all_list [OF ok fresh_temp(1,2) [OF tmp(1)] p(2) apart] obtain r where
    r: "copy_all alloc ?h1 ?temp (before_begin ?temp) (BasicIterator_of p)
          (BasicIterator_of nullptr) = Some r"
      "\<forall>h2 temp2 current. r = Inr (h2, temp2, current) \<longrightarrow>
              (\<exists>new. is_list h2 temp2 ([] @ new) \<and> elements new = elements os \<and>
                 head' temp2 = head' ?temp \<and> fst ` set new \<inter> dom ?h1 = {} \<and>
                 unchanged_outside (footprint ?temp ([] :: (addr \<times> 'a) list)) ?h1 h2 \<and>
                 dom ?h1 \<subseteq> dom h2)"
    by blast
  from run p(1) r(1) have "case r of
      Inl e \<Rightarrow> False
    | Inr (h2, temp2, current) \<Rightarrow> swap_and_drop h2 ?self temp2 = Inr (h', l')"
    unfolding SingleLinkedList_copy_def SingleLinkedList_default_def Let_def
    by (simp add: end_it_def split: sum.splits prod.splits if_splits)
  then obtain h2 temp2 current where
    loop: "r = Inr (h2, temp2, current)" and
    fin: "swap_and_drop h2 ?self temp2 = Inr (h', l')"
    by (cases r) auto
  from r(2) loop obtain new where
    new: "is_list h2 temp2 ([] @ new)" "elements new = elements os" "head' temp2 = head' ?temp"
      "fst ` set new \<inter> dom ?h1 = {}" "unchanged_outside (footprint ?temp ([] :: (addr \<times> 'a) list)) ?h1 h2"
    by blast
  from new(1) have b1: "is_list h2 temp2 new"
    by simp
  from new(3) have b2: "head' temp2 = tmp"
    by simp
  from new(5) have b4: "unchanged_outside {tmp} ?h1 h2"
    by (simp add: fresh_temp(3) [OF tmp(1)])
  have "is_list h' l' new \<and> head' l' = this \<and> footprint l' new \<inter> dom h = {} \<and>
         unchanged_outside {} h h'"
    using obj tmp b1 b2 new(4) b4 _ fin by (rule build_and_swap) simp
  with new(2) show ?thesis
    by blast
qed

lemma assign_list:
  fixes h :: "'a heap"
  assumes ok: "valid_allocator alloc"
    and self: "is_list h self cs" and rhs: "is_list h rhs rs"
    and tmp1: "tmp1 \<noteq> nullptr" "h tmp1 = None"
    and tmp2: "tmp2 \<noteq> nullptr" "h tmp2 = None" "tmp1 \<noteq> tmp2"
    and run: "operator_assign alloc h self rhs tmp1 tmp2 dflt garbage = Some (Inr (h', l'))"
  shows "\<exists>cs'. is_list h' l' cs' \<and> elements cs' = elements rs \<and>
           footprint l' cs' \<subseteq> footprint self cs \<union> (UNIV - dom h) \<and>
           unchanged_outside (footprint self cs) h h'"
proof -
  from run have "case SingleLinkedList_copy alloc h tmp1 tmp2 dflt garbage rhs of
      None \<Rightarrow> False
    | Some (Inl e) \<Rightarrow> False
    | Some (Inr (h1, temp)) \<Rightarrow> swap_and_drop h1 self temp = Inr (h', l')"
    unfolding operator_assign_def
    by (simp split: option.splits sum.splits prod.splits)
  then obtain h1 temp where
    copy: "SingleLinkedList_copy alloc h tmp1 tmp2 dflt garbage rhs = Some (Inr (h1, temp))" and
    fin: "swap_and_drop h1 self temp = Inr (h', l')"
    by (auto split: option.splits sum.splits)
  from copy_list [OF ok rhs tmp1 tmp2 copy] obtain ts where
    ts: "is_list h1 temp ts" "elements ts = elements rs" "head' temp = tmp1"
      "footprint temp ts \<inter> dom h = {}" "unchanged_outside {} h h1"
    by blast
  have self1: "is_list h1 self cs"
    using self
  proof (rule is_list_frame)
    fix q
    assume "q \<in> footprint self cs"
    with footprint_live(1) [OF self] have "q \<in> dom h"
      by blast
    with ts(5) show "h1 q = h q"
      by (simp add: unchanged_outside_def)
  qed
  from is_list_sentinel_cells [OF self1] obtain d
    where chain: "cells h1 (head' self) ((head' self, d) # cs)" ..
  from footprint_live(1) [OF self] ts(4) have disj: "footprint self cs \<inter> footprint temp ts = {}"
    by blast
  from swap_and_drop_chains [OF chain ts(1) disj] obtain hx where
    hx: "swap_and_drop h1 self temp = Inr (hx, self\<lparr>size' := size' temp\<rparr>)"
      "is_list hx (self\<lparr>size' := size' temp\<rparr>) ts"
      "\<forall>q. q \<notin> footprint self cs \<union> footprint temp ts \<longrightarrow> hx q = h1 q"
    by blast
  from hx(1) fin have same: "h' = hx" "l' = self\<lparr>size' := size' temp\<rparr>"
    by simp_all
  from hx(2) have wf: "is_list h' l' ts"
    by (simp add: same)
  have "footprint l' ts \<subseteq> footprint self cs \<union> (UNIV - dom h)"
    using ts(4) by (auto simp: footprint_def same)
  moreover have "unchanged_outside (footprint self cs) h h'"
    unfolding unchanged_outside_def
  proof (intro allI impI)
    fix q
    assume q: "q \<in> dom h \<and> q \<notin> footprint self cs"
    with ts(4) have "q \<notin> footprint temp ts"
      by blast
    with q hx(3) have "h' q = h1 q"
      by (simp add: same)
    also from q ts(5) have "h1 q = h q"
      by (simp add: unchanged_outside_def)
    finally show "h' q = h q" .
  qed
  ultimately show ?thesis
    using wf ts(2) by blast
qed

lemma world_inv_step:
  assumes fp1: "\<forall>y m. objects w y = Some m \<longrightarrow> is_list (store w) m (fp y)"
    and fp2: "\<forall>y z m n. y \<noteq> z \<longrightarrow> objects w y = Some m \<longrightarrow> objects w z = Some n \<longrightarrow>
                footprint m (fp y) \<inter> footprint n (fp z) = {}"
    and F: "F = (case objects w x of None \<Rightarrow> {} | Some l \<Rightarrow> footprint l (fp x))"
    and new: "is_list h' l' cs'" "footprint l' cs' \<subseteq> F \<union> (UNIV - dom (store w))"
      "unchanged_outside F (store w) h'"
  shows "world_inv \<lparr>store = h', objects = (objects w)(x \<mapsto> l')\<rparr>"
proof -
  let ?fp = "fp(x := cs')"
  have other: "is_list h' m (fp y) \<and> footprint m (fp y) \<inter> (F \<union> (UNIV - dom (store w))) = {}"
    if "y \<noteq> x" "objects w y = Some m" for y m
  proof -
    from fp1 that(2) have m: "is_list (store w) m (fp y)"
      by blast
    have apart: "footprint m (fp y) \<inter> F = {}"
    proof (cases "objects w x")
      case None
      with F show ?thesis
        by simp
    next
      case (Some l)
      with fp2 that F show ?thesis
        by auto
    qed
    have live: "footprint m (fp y) \<subseteq> dom (store w)"
      using m by (rule footprint_live(1))
    have "is_list h' m (fp y)"
      using m
    proof (rule is_list_frame)
      fix q
      assume "q \<in> footprint m (fp y)"
      with apart live have "q \<in> dom (store w) \<and> q \<notin> F"
        by blast
      with new(3) show "h' q = store w q"
        by (simp add: unchanged_outside_def)
    qed
    with apart live show ?thesis
      by blast
  qed
  have "\<forall>y m. ((objects w)(x \<mapsto> l')) y = Some m \<longrightarrow> is_list h' m (?fp y)"
    using new(1) other by auto
  moreover have "\<forall>y z m n. y \<noteq> z \<longrightarrow> ((objects w)(x \<mapsto> l')) y = Some m \<longrightarrow>
      ((objects w)(x \<mapsto> l')) z = Some n \<longrightarrow> footprint m (?fp y) \<inter> footprint n (?fp z) = {}"
  proof (intro allI impI)
    fix y z m n
    assume yz: "y \<noteq> z" and m: "((objects w)(x \<mapsto> l')) y = Some m"
      and n: "((objects w)(x \<mapsto> l')) z = Some n"
    consider "y = x" "z \<noteq> x" | "z = x" "y \<noteq> x" | "y \<noteq> x" "z \<noteq> x"
      using yz by blast
    then show "footprint m (?fp y) \<inter> footprint n (?fp z) = {}"
    proof cases
      case 1
      with m n have "m = l'" "objects w z = Some n"
        by simp_all
      with other [OF 1(2)] new(2) 1 show ?thesis
        by auto
    next
      case 2
      with m n have "n = l'" "objects w y = Some m"
        by simp_all
      with other [OF 2(2)] new(2) 2 show ?thesis
        by auto
    next
      case 3
      with m n fp2 yz show ?thesis
        by simp
    qed
  qed
  ultimately show ?thesis
    unfolding world_inv_def by (intro exI [where x = ?fp]) simp
qed

section \<open>The invariant of program states\<close>

lemma world_inv_destroy:
  assumes fp1: "\<forall>y m. objects w y = Some m \<longrightarrow> is_list (store w) m (fp y)"
    and fp2: "\<forall>y z m n. y \<noteq> z \<longrightarrow> objects w y = Some m \<longrightarrow> objects w z = Some n \<longrightarrow>
                footprint m (fp y) \<inter> footprint n (fp z) = {}"
    and x: "objects w x = Some l"
    and frame: "\<forall>q. q \<notin> footprint l (fp x) \<longrightarrow> h' q = store w q"
  shows "world_inv \<lparr>store = h', objects = (objects w)(x := None)\<rparr>"
proof -
  have "is_list h' m (fp y)" if "y \<noteq> x" "objects w y = Some m" for y m
  proof -
    from fp1 that(2) have m: "is_list (store w) m (fp y)"
      by blast
    from fp2 that x have apart: "footprint m (fp y) \<inter> footprint l (fp x) = {}"
      by blast
    show ?thesis
      using m
    proof (rule is_list_frame)
      fix q
      assume "q \<in> footprint m (fp y)"
      with apart have "q \<notin> footprint l (fp x)"
        by blast
      with frame show "h' q = store w q"
        by blast
    qed
  qed
  then have "\<forall>y m. ((objects w)(x := None)) y = Some m \<longrightarrow> is_list h' m (fp y)"
    by auto
  moreover have "\<forall>y z m n. y \<noteq> z \<longrightarrow> ((objects w)(x := None)) y = Some m \<longrightarrow>
      ((objects w)(x := None)) z = Some n \<longrightarrow> footprint m (fp y) \<inter> footprint n (fp z) = {}"
    using fp2 by (simp split: if_splits)
  ultimately show ?thesis
    unfolding world_inv_def by (intro exI [where x = fp]) simp
qed

lemma world_inv_swap:
  assumes fp1: "\<forall>y m. objects w y = Some m \<longrightarrow> is_list (store w) m (fp y)"
    and fp2: "\<forall>y z m n. y \<noteq> z \<longrightarrow> objects w y = Some m \<longrightarrow> objects w z = Some n \<longrightarrow>
                footprint m (fp y) \<inter> footprint n (fp z) = {}"
    and xy: "x \<noteq> y" and x: "objects w x = Some l" and y: "objects w y = Some other"
    and run: "swap (store w) l other = Inr (h', l', other')"
  shows "world_inv \<lparr>store = h', objects = (objects w)(y \<mapsto> other', x \<mapsto> l')\<rparr>"
proof -
  let ?h = "store w"
  from fp1 x y have wl: "is_list ?h l (fp x)" and wo: "is_list ?h other (fp y)"
    by blast+
  from fp2 xy x y have disj: "footprint l (fp x) \<inter> footprint other (fp y) = {}"
    by blast
  from is_list_sentinel_cells [OF wl] obtain d
    where cl: "cells ?h (head' l) ((head' l, d) # fp x)" ..
  from is_list_sentinel_cells [OF wo] obtain e
    where co: "cells ?h (head' other) ((head' other, e) # fp y)" ..
  from swap_chains [OF cl co disj] obtain hx where
    hx: "swap ?h l other = Inr (hx, l\<lparr>size' := size' other\<rparr>, other\<lparr>size' := size' l\<rparr>)"
      "cells hx (head' l) ((head' l, d) # fp y)"
      "cells hx (head' other) ((head' other, e) # fp x)"
      "\<forall>q. q \<noteq> head' l \<and> q \<noteq> head' other \<longrightarrow> hx q = ?h q"
    by blast
  from hx(1) run have same: "h' = hx" "l' = l\<lparr>size' := size' other\<rparr>"
      "other' = other\<lparr>size' := size' l\<rparr>"
    by simp_all
  have wl': "is_list h' l' (fp y)"
  proof (rule is_listI [where d = d])
    show "cells h' (head' l') ((head' l', d) # fp y)"
      using hx(2) by (simp add: same)
    show "unat (size' l') = length (fp y)"
      using wo by (simp add: same is_list_def)
  qed
  have wo': "is_list h' other' (fp x)"
  proof (rule is_listI [where d = e])
    show "cells h' (head' other') ((head' other', e) # fp x)"
      using hx(3) by (simp add: same)
    show "unat (size' other') = length (fp x)"
      using wl by (simp add: same is_list_def)
  qed
  have heads: "head' l' = head' l" "head' other' = head' other"
    by (simp_all add: same)
  have union: "footprint l' (fp y) \<union> footprint other' (fp x) =
               footprint l (fp x) \<union> footprint other (fp y)"
    by (auto simp: footprint_def heads)
  from is_list_distinct(1) [OF wl'] is_list_distinct(1) [OF wo']
    is_list_distinct(1) [OF wl] is_list_distinct(1) [OF wo] disj
  have disj': "footprint l' (fp y) \<inter> footprint other' (fp x) = {}"
    by (auto simp: footprint_def heads)
  from union have subs:
    "footprint l' (fp y) \<subseteq> footprint l (fp x) \<union> footprint other (fp y)"
    "footprint other' (fp x) \<subseteq> footprint l (fp x) \<union> footprint other (fp y)"
    by blast+
  let ?fp = "fp(x := fp y, y := fp x)"
  let ?objs = "(objects w)(y \<mapsto> other', x \<mapsto> l')"
  have third: "is_list h' m (fp z) \<and>
      footprint m (fp z) \<inter> (footprint l (fp x) \<union> footprint other (fp y)) = {}"
    if "z \<noteq> x" "z \<noteq> y" "objects w z = Some m" for z m
  proof -
    from fp1 that(3) have m: "is_list ?h m (fp z)"
      by blast
    from fp2 that x y have apart: "footprint m (fp z) \<inter> footprint l (fp x) = {}"
        "footprint m (fp z) \<inter> footprint other (fp y) = {}"
      by blast+
    have "is_list h' m (fp z)"
      using m
    proof (rule is_list_frame)
      fix q
      assume "q \<in> footprint m (fp z)"
      moreover have "head' l \<in> footprint l (fp x)" "head' other \<in> footprint other (fp y)"
        by (simp_all add: footprint_def)
      ultimately have "q \<noteq> head' l \<and> q \<noteq> head' other"
        using apart by blast
      with hx(4) show "h' q = ?h q"
        by (simp add: same)
    qed
    with apart show ?thesis
      by blast
  qed
  have "\<forall>z m. ?objs z = Some m \<longrightarrow> is_list h' m (?fp z)"
    using wl' wo' third xy by auto
  moreover have "\<forall>z v m n. z \<noteq> v \<longrightarrow> ?objs z = Some m \<longrightarrow> ?objs v = Some n \<longrightarrow>
      footprint m (?fp z) \<inter> footprint n (?fp v) = {}"
  proof (intro allI impI)
    fix z v m n
    assume zv: "z \<noteq> v" and m: "?objs z = Some m" and n: "?objs v = Some n"
    have one: "footprint m' (?fp z') \<subseteq> footprint l (fp x) \<union> footprint other (fp y)"
      if "z' = x \<or> z' = y" "?objs z' = Some m'" for z' m'
    proof (cases "z' = x")
      case True
      with that(2) xy have "m' = l'" "?fp z' = fp y"
        by simp_all
      with subs(1) show ?thesis
        by simp
    next
      case False
      with that xy have "m' = other'" "?fp z' = fp x"
        by simp_all
      with subs(2) show ?thesis
        by simp
    qed
    have two: "footprint m' (?fp z') \<inter> (footprint l (fp x) \<union> footprint other (fp y)) = {}"
      if "z' \<noteq> x" "z' \<noteq> y" "?objs z' = Some m'" for z' m'
      using that third [of z' m'] by simp
    consider "z = x" "v = y" | "z = y" "v = x" | "z = x \<or> z = y" "v \<noteq> x" "v \<noteq> y"
      | "v = x \<or> v = y" "z \<noteq> x" "z \<noteq> y" | "z \<noteq> x" "z \<noteq> y" "v \<noteq> x" "v \<noteq> y"
      using zv by blast
    then show "footprint m (?fp z) \<inter> footprint n (?fp v) = {}"
    proof cases
      case 1
      with m n xy have "m = l'" "n = other'" "?fp z = fp y" "?fp v = fp x"
        by simp_all
      with disj' show ?thesis
        by simp
    next
      case 2
      with m n xy have "m = other'" "n = l'" "?fp z = fp x" "?fp v = fp y"
        by simp_all
      with disj' show ?thesis
        by (simp add: Int_commute)
    next
      case 3
      from one [OF 3(1) m] two [OF 3(2,3) n] show ?thesis
        by blast
    next
      case 4
      from one [OF 4(1) n] two [OF 4(2,3) m] show ?thesis
        by blast
    next
      case 5
      with m n fp2 zv show ?thesis
        by simp
    qed
  qed
  ultimately show ?thesis
    unfolding world_inv_def by (intro exI [where x = ?fp]) simp
qed

lemma inv_local_update:
  assumes inv: "world_inv w" and x: "objects w x = Some l"
    and eff: "\<And>cs. is_list (store w) l cs \<Longrightarrow>
      \<exists>cs'. is_list h' l' cs' \<and> footprint l' cs' \<subseteq> footprint l cs \<union> (UNIV - dom (store w)) \<and>
        unchanged_outside (footprint l cs) (store w) h'"
  shows "world_inv \<lparr>store = h', objects = (objects w)(x \<mapsto> l')\<rparr>"
proof -
  from inv obtain fp where
    fp1: "\<forall>y m. objects w y = Some m \<longrightarrow> is_list (store w) m (fp y)" and
    fp2: "\<forall>y z m n. y \<noteq> z \<longrightarrow> objects w y = Some m \<longrightarrow> objects w z = Some n \<longrightarrow>
                footprint m (fp y) \<inter> footprint n (fp z) = {}"
    unfolding world_inv_def by blast
  from fp1 x have "is_list (store w) l (fp x)"
    by blast
  from eff [OF this] obtain cs' where
    new: "is_list h' l' cs'" "footprint l' cs' \<subseteq> footprint l (fp x) \<union> (UNIV - dom (store w))"
      "unchanged_outside (footprint l (fp x)) (store w) h'"
    by blast
  have F: "footprint l (fp x) = (case objects w x of None \<Rightarrow> {} | Some l \<Rightarrow> footprint l (fp x))"
    using x by simp
  from fp1 fp2 F new show ?thesis
    by (rule world_inv_step)
qed

lemma inv_new_object:
  assumes inv: "world_inv w" and x: "objects w x = None"
    and new: "is_list h' l' cs'" "footprint l' cs' \<inter> dom (store w) = {}"
      "unchanged_outside {} (store w) h'"
  shows "world_inv \<lparr>store = h', objects = (objects w)(x \<mapsto> l')\<rparr>"
proof -
  from inv obtain fp where
    fp1: "\<forall>y m. objects w y = Some m \<longrightarrow> is_list (store w) m (fp y)" and
    fp2: "\<forall>y z m n. y \<noteq> z \<longrightarrow> objects w y = Some m \<longrightarrow> objects w z = Some n \<longrightarrow>
                footprint m (fp y) \<inter> footprint n (fp z) = {}"
    unfolding world_inv_def by blast
  have F: "{} = (case objects w x of None \<Rightarrow> {} | Some l \<Rightarrow> footprint l (fp x))"
    using x by simp
  from new(2) have sub: "footprint l' cs' \<subseteq> {} \<union> (UNIV - dom (store w))"
    by blast
  from fp1 fp2 F new(1) sub new(3) show ?thesis
    by (rule world_inv_step)
qed

lemma inv_construct_default:
  assumes "world_inv w" and "objects w x = None" and "this \<noteq> nullptr" and "store w this = None"
    and "SingleLinkedList_default (store w) this dflt = (h', l')"
  shows "world_inv \<lparr>store = h', objects = (objects w)(x \<mapsto> l')\<rparr>"
  using assms(1,2)
proof (rule inv_new_object)
  from assms(5) have same: "h' = (store w)(this \<mapsto> \<lparr>value = dflt, next_node = nullptr\<rparr>)"
      "l' = \<lparr>head' = this, size' = 0\<rparr>"
    by (simp_all add: SingleLinkedList_default_def)
  show "is_list h' l' []"
    using assms(3) by (simp add: same is_list_def)
  show "footprint l' [] \<inter> dom (store w) = {}"
    using assms(4) by (auto simp: same footprint_def)
  show "unchanged_outside {} (store w) h'"
    using assms(4) by (auto simp: same unchanged_outside_def)
qed

lemma inv_construct_init:
  assumes "world_inv w" and "valid_allocator alloc" and "objects w x = None"
    and "this \<noteq> nullptr" "store w this = None" "tmp \<noteq> nullptr" "store w tmp = None" "this \<noteq> tmp"
    and "SingleLinkedList_init alloc (store w) this tmp dflt garbage vs = Inr (h', l')"
  shows "world_inv \<lparr>store = h', objects = (objects w)(x \<mapsto> l')\<rparr>"
proof -
  from init_list [OF assms(2,4-9)] obtain cs' where
    "is_list h' l' cs'" "footprint l' cs' \<inter> dom (store w) = {}" "unchanged_outside {} (store w) h'"
    by blast
  with assms(1,3) show ?thesis
    by (rule inv_new_object)
qed

lemma inv_construct_copy:
  assumes "world_inv w" and "valid_allocator alloc" and "objects w x = None"
    and "objects w y = Some other"
    and "this \<noteq> nullptr" "store w this = None" "tmp \<noteq> nullptr" "store w tmp = None" "this \<noteq> tmp"
    and "SingleLinkedList_copy alloc (store w) this tmp dflt garbage other = Some (Inr (h', l'))"
  shows "world_inv \<lparr>store = h', objects = (objects w)(x \<mapsto> l')\<rparr>"
proof -
  from assms(1,4) obtain os where "is_list (store w) other os"
    unfolding world_inv_def by blast
  from copy_list [OF assms(2) this assms(5-10)] obtain cs' where
    "is_list h' l' cs'" "footprint l' cs' \<inter> dom (store w) = {}" "unchanged_outside {} (store w) h'"
    by blast
  with assms(1,3) show ?thesis
    by (rule inv_new_object)
qed

lemma inv_assign:
  assumes "world_inv w" and "valid_allocator alloc" and "objects w x = Some l"
    and "objects w y = Some rhs"
    and "tmp1 \<noteq> nullptr" "store w tmp1 = None" "tmp2 \<noteq> nullptr" "store w tmp2 = None"
      "tmp1 \<noteq> tmp2"
    and "operator_assign alloc (store w) l rhs tmp1 tmp2 dflt garbage = Some (Inr (h', l'))"
  shows "world_inv \<lparr>store = h', objects = (objects w)(x \<mapsto> l')\<rparr>"
  using assms(1,3)
proof (rule inv_local_update)
  fix cs
  assume l: "is_list (store w) l cs"
  from assms(1,4) obtain rs where "is_list (store w) rhs rs"
    unfolding world_inv_def by blast
  from assign_list [OF assms(2) l this assms(5-10)]
  show "\<exists>cs'. is_list h' l' cs' \<and> footprint l' cs' \<subseteq> footprint l cs \<union> (UNIV - dom (store w)) \<and>
        unchanged_outside (footprint l cs) (store w) h'"
    by blast
qed

lemma inv_destroy:
  assumes "world_inv w" and "objects w x = Some l"
    and "SingleLinkedList_destroy (store w) l = Inr h'"
  shows "world_inv \<lparr>store = h', objects = (objects w)(x := None)\<rparr>"
proof -
  from assms(1) obtain fp where
    fp1: "\<forall>y m. objects w y = Some m \<longrightarrow> is_list (store w) m (fp y)" and
    fp2: "\<forall>y z m n. y \<noteq> z \<longrightarrow> objects w y = Some m \<longrightarrow> objects w z = Some n \<longrightarrow>
                footprint m (fp y) \<inter> footprint n (fp z) = {}"
    unfolding world_inv_def by blast
  from fp1 assms(2) have "is_list (store w) l (fp x)"
    by blast
  from is_list_sentinel_cells [OF this] obtain d
    where "cells (store w) (head' l) ((head' l, d) # fp x)" ..
  from destroy_chain [OF this] assms(3) have "\<forall>q. q \<notin> footprint l (fp x) \<longrightarrow> h' q = store w q"
    by auto
  with fp1 fp2 assms(2) show ?thesis
    by (rule world_inv_destroy)
qed

lemma inv_push_front:
  assumes "world_inv w" and "valid_allocator alloc" and "objects w x = Some l"
    and "PushFront alloc (store w) l v = Inr (h', l')"
  shows "world_inv \<lparr>store = h', objects = (objects w)(x \<mapsto> l')\<rparr>"
  using assms(1,3) by (rule inv_local_update) (rule PushFront_effect [OF _ assms(2,4)])

lemma inv_pop_front:
  assumes "world_inv w" and "objects w x = Some l"
    and "PopFront (store w) l = Inr (h', l')"
  shows "world_inv \<lparr>store = h', objects = (objects w)(x \<mapsto> l')\<rparr>"
  using assms(1,2) by (rule inv_local_update) (rule PopFront_effect [OF _ assms(3)])

lemma inv_insert_after:
  assumes "world_inv w" and "valid_allocator alloc" and "objects w x = Some l"
    and "advance (store w) (before_begin l) k = Inr pos"
    and "InsertAfter alloc (store w) l pos v = Inr (h', l', it)"
  shows "world_inv \<lparr>store = h', objects = (objects w)(x \<mapsto> l')\<rparr>"
  using assms(1,3) by (rule inv_local_update) (rule InsertAfter_effect [OF _ assms(2,4,5)])

lemma inv_erase_after:
  assumes "world_inv w" and "objects w x = Some l"
    and "advance (store w) (before_begin l) k = Inr pos"
    and "EraseAfter (store w) l pos = Inr (h', l', it)"
  shows "world_inv \<lparr>store = h', objects = (objects w)(x \<mapsto> l')\<rparr>"
  using assms(1,2) by (rule inv_local_update) (rule EraseAfter_effect [OF _ assms(3,4)])

lemma inv_clear:
  assumes "world_inv w" and "objects w x = Some l"
    and "Clear (store w) l = Inr (h', l')"
  shows "world_inv \<lparr>store = h', objects = (objects w)(x \<mapsto> l')\<rparr>"
  using assms(1,2)
proof (rule inv_local_update)
  fix cs
  assume l: "is_list (store w) l cs"
  from Clear_list [OF l] assms(3) have
    wf: "is_list h' l' []" and l': "l' = l\<lparr>size' := 0\<rparr>" and
    frame: "\<forall>q. q \<notin> footprint l cs \<longrightarrow> h' q = store w q"
    by auto
  have "footprint l' [] \<subseteq> footprint l cs \<union> (UNIV - dom (store w))"
    by (simp add: footprint_def l')
  moreover have "unchanged_outside (footprint l cs) (store w) h'"
    using frame by (simp add: unchanged_outside_def)
  ultimately show "\<exists>cs'. is_list h' l' cs' \<and>
      footprint l' cs' \<subseteq> footprint l cs \<union> (UNIV - dom (store w)) \<and>
      unchanged_outside (footprint l cs) (store w) h'"
    using wf by blast
qed

lemma inv_swap_lists:
  assumes "world_inv w" and "objects w x = Some l" and "objects w y = Some other"
    and "swap (store w) l other = Inr (h', l', other')"
  shows "world_inv \<lparr>store = h', objects = (objects w)(y \<mapsto> other', x \<mapsto> l')\<rparr>"
proof (cases "x = y")
  case True
  with assms(2,3) have same: "other = l"
    by simp
  from assms(1,2) obtain cs where "is_list (store w) l cs"
    unfolding world_inv_def by blast
  from is_list_sentinel_cells [OF this] obtain d
    where "cells (store w) (head' l) ((head' l, d) # cs)" ..
  from swap_self [OF this] assms(4) have "h' = store w" "l' = l"
    by (simp_all add: same)
  moreover from assms(2) have "(objects w)(x \<mapsto> l) = objects w"
    by (simp add: fun_upd_idem)
  ultimately have "\<lparr>store = h', objects = (objects w)(y \<mapsto> other', x \<mapsto> l')\<rparr> = w"
    using True by simp
  with assms(1) show ?thesis
    by simp
next
  case False
  from assms(1) obtain fp where
    fp1: "\<forall>y m. objects w y = Some m \<longrightarrow> is_list (store w) m (fp y)" and
    fp2: "\<forall>y z m n. y \<noteq> z \<longrightarrow> objects w y = Some m \<longrightarrow> objects w z = Some n \<longrightarrow>
                footprint m (fp y) \<inter> footprint n (fp z) = {}"
    unfolding world_inv_def by blast
  from fp1 fp2 False assms(2,3,4) show ?thesis
    by (rule world_inv_swap)
qed

lemma deref_error:
  "deref h p = Inl e \<Longrightarrow> e \<noteq> BadAlloc"
  by (auto simp: deref_def split: if_splits option.splits)

lemma write_next_error:
  "write_next h p q = Inl e \<Longrightarrow> e \<noteq> BadAlloc"
  by (auto simp: write_next_def split: sum.splits dest: deref_error)

lemma PushFront_throws:
  assumes "PushFront alloc h l v = Inl (BadAlloc, h', l')"
  shows "h' = h \<and> l' = l"
  using assms
  by (auto simp: PushFront_def split: sum.splits prod.splits dest: write_next_error)

lemma InsertAfter_throws:
  assumes "InsertAfter alloc h l pos v = Inl (BadAlloc, h', l')"
  shows "h' = h \<and> l' = l"
  using assms
  by (auto simp: InsertAfter_def split: if_splits sum.splits prod.splits
      dest: write_next_error deref_error)


lemma insert_all_throws:
  assumes "valid_allocator alloc" and "is_list h temp cs"
    and "node' current = last (head' temp # map fst cs)"
    and "insert_all alloc h temp current vs = Inl (BadAlloc, h2, temp2)"
  shows "\<exists>new. is_list h2 temp2 (cs @ new) \<and> head' temp2 = head' temp \<and>
           fst ` set new \<inter> dom h = {} \<and> unchanged_outside (footprint temp cs) h h2"
  using assms(2-)
proof (induction vs arbitrary: h temp current cs)
  case Nil
  then show ?case
    by simp
next
  case (Cons v vs)
  show ?case
  proof (cases "InsertAfter alloc h temp current v")
    case (Inl e)
    with Cons.prems(3) have "InsertAfter alloc h temp current v = Inl (BadAlloc, h2, temp2)"
      by simp
    then have same: "h2 = h \<and> temp2 = temp"
      by (rule InsertAfter_throws)
    have "is_list h temp (cs @ []) \<and> head' temp = head' temp \<and>
       fst ` set [] \<inter> dom h = {} \<and> unchanged_outside (footprint temp cs) h h"
      using Cons.prems(1) by (simp add: unchanged_outside_refl)
    then have "\<exists>new. is_list h temp (cs @ new) \<and> head' temp = head' temp \<and>
       fst ` set new \<inter> dom h = {} \<and> unchanged_outside (footprint temp cs) h h"
      by (rule exI [where x = "[]"])
    with same show ?thesis
      by simp
  next
    case (Inr res)
    then obtain h1 temp1 it1 where
      first: "InsertAfter alloc h temp current v = Inr (h1, temp1, it1)"
      by (cases res) auto
    with Cons.prems(3) have rest: "insert_all alloc h1 temp1 it1 vs = Inl (BadAlloc, h2, temp2)"
      by simp
    from InsertAfter_at_end [OF Cons.prems(1) assms(1) Cons.prems(2) first] obtain a where
      a: "h a = None" "it1 = BasicIterator_of a" "is_list h1 temp1 (cs @ [(a, v)])"
        "head' temp1 = head' temp" "unchanged_outside (footprint temp cs) h h1" "dom h \<subseteq> dom h1"
      by blast
    have pos1: "node' it1 = last (head' temp1 # map fst (cs @ [(a, v)]))"
      using a(2) by (simp add: BasicIterator_of_def)
    from Cons.IH [OF a(3) pos1 rest] obtain new where
      new: "is_list h2 temp2 ((cs @ [(a, v)]) @ new)" "head' temp2 = head' temp1"
        "fst ` set new \<inter> dom h1 = {}"
        "unchanged_outside (footprint temp1 (cs @ [(a, v)])) h1 h2"
      by blast
    have sub: "footprint temp1 (cs @ [(a, v)]) \<subseteq> footprint temp cs \<union> (UNIV - dom h)"
      using a(1,4) by (auto simp: footprint_def)
    have "is_list h2 temp2 (cs @ (a, v) # new)"
      using new(1) by simp
    moreover have "head' temp2 = head' temp"
      using new(2) a(4) by simp
    moreover have "fst ` set ((a, v) # new) \<inter> dom h = {}"
    proof -
      from new(3) a(6) have "fst ` set new \<inter> dom h = {}"
        by blast
      with a(1) show ?thesis
        by (simp add: dom_def)
    qed
    moreover have "unchanged_outside (footprint temp cs) h h2"
      using a(5) new(4) sub by (rule unchanged_outside_trans)
    ultimately show ?thesis
      by (intro exI [where x = "(a, v) # new"] conjI)
  qed
qed

lemma copy_all_throws:
  assumes ok: "valid_allocator alloc"
    and temp: "is_list h temp cs"
    and cur: "node' current = last (head' temp # map fst cs)"
    and src: "cells h p rest"
    and apart: "fst ` set rest \<inter> footprint temp cs = {}"
    and run: "copy_all alloc h temp current (BasicIterator_of p) (BasicIterator_of nullptr) =
                Some (Inl (BadAlloc, h2, temp2))"
  shows "\<exists>new. is_list h2 temp2 (cs @ new) \<and> head' temp2 = head' temp \<and>
           fst ` set new \<inter> dom h = {} \<and> unchanged_outside (footprint temp cs) h h2"
  using temp cur src apart run
proof (induction rest arbitrary: h temp current cs p)
  case Nil
  then have "copy_all alloc h temp current (BasicIterator_of p) (BasicIterator_of nullptr) =
               Some (Inr (h, temp, current))"
    by (subst copy_all.simps) (simp add: it_neq_def BasicIterator_of_def)
  with Nil(5) show ?case
    by simp
next
  case (Cons c rest)
  from Cons.prems(3) obtain n where n: "p = fst c" "p \<noteq> nullptr" "h p = Some n" "value n = snd c"
      "cells h (next_node n) rest"
    by (auto split: option.splits)
  from Cons.prems(4) n(1) have p_out: "p \<notin> footprint temp cs"
    and rest_out: "fst ` set rest \<inter> footprint temp cs = {}"
    by auto
  let ?it = "BasicIterator_of p" and ?end = "BasicIterator_of nullptr"
  have unfold: "copy_all alloc h temp current ?it ?end =
     (case InsertAfter alloc h temp current (snd c) of
        Inl e \<Rightarrow> Some (Inl e)
      | Inr (h1, temp1, current1) \<Rightarrow>
     (case it_pre_incr h1 ?it of
        Inl e \<Rightarrow> Some (Inl (e, h1, temp1))
      | Inr it1 \<Rightarrow> copy_all alloc h1 temp1 current1 it1 ?end))"
    using n(2,3,4)
    by (subst copy_all.simps) (simp add: it_neq_def it_deref_def deref_def BasicIterator_of_def)
  show ?case
  proof (cases "InsertAfter alloc h temp current (snd c)")
    case (Inl e)
    with unfold Cons.prems(5)
    have "InsertAfter alloc h temp current (snd c) = Inl (BadAlloc, h2, temp2)"
      by simp
    then have same: "h2 = h \<and> temp2 = temp"
      by (rule InsertAfter_throws)
    have "is_list h temp (cs @ []) \<and> head' temp = head' temp \<and>
       fst ` set [] \<inter> dom h = {} \<and> unchanged_outside (footprint temp cs) h h"
      using Cons.prems(1) by (simp add: unchanged_outside_refl)
    then have "\<exists>new. is_list h temp (cs @ new) \<and> head' temp = head' temp \<and>
       fst ` set new \<inter> dom h = {} \<and> unchanged_outside (footprint temp cs) h h"
      by (rule exI [where x = "[]"])
    with same show ?thesis
      by simp
  next
    case (Inr res)
    then obtain h1 temp1 it1 where
      first: "InsertAfter alloc h temp current (snd c) = Inr (h1, temp1, it1)"
      by (cases res) auto
    from InsertAfter_at_end [OF Cons.prems(1) ok Cons.prems(2) first] obtain a where
      a: "h a = None" "it1 = BasicIterator_of a" "is_list h1 temp1 (cs @ [(a, snd c)])"
        "head' temp1 = head' temp" "unchanged_outside (footprint temp cs) h h1" "dom h \<subseteq> dom h1"
      by blast
    have pos1: "node' it1 = last (head' temp1 # map fst (cs @ [(a, snd c)]))"
      using a(2) by (simp add: BasicIterator_of_def)
    from unchanged_outsideD [OF a(5) n(3) p_out] have h1p: "h1 p = Some n" .
    from n(5) a(5) rest_out have src1: "cells h1 (next_node n) rest"
      by (rule path_unchanged_outside)
    have "a \<notin> fst ` set rest"
      using path_live_addr [OF n(5), of a] a(1) by blast
    with rest_out a(4) have apart1: "fst ` set rest \<inter> footprint temp1 (cs @ [(a, snd c)]) = {}"
      by (auto simp: footprint_def)
    have rest: "copy_all alloc h1 temp1 it1 (BasicIterator_of (next_node n)) ?end =
                  Some (Inl (BadAlloc, h2, temp2))"
      using unfold first h1p n(2) Cons.prems(5)
      by (simp add: it_pre_incr_def deref_def BasicIterator_of_def)
    from Cons.IH [OF a(3) pos1 src1 apart1 rest] obtain new where
      new: "is_list h2 temp2 ((cs @ [(a, snd c)]) @ new)" "head' temp2 = head' temp1"
        "fst ` set new \<inter> dom h1 = {}"
        "unchanged_outside (footprint temp1 (cs @ [(a, snd c)])) h1 h2"
      by blast
    have sub: "footprint temp1 (cs @ [(a, snd c)]) \<subseteq> footprint temp cs \<union> (UNIV - dom h)"
      using a(1,4) by (auto simp: footprint_def)
    have "is_list h2 temp2 (cs @ (a, snd c) # new)"
      using new(1) by simp
    moreover have "head' temp2 = head' temp"
      using new(2) a(4) by simp
    moreover have "fst ` set ((a, snd c) # new) \<inter> dom h = {}"
    proof -
      from new(3) a(6) have "fst ` set new \<inter> dom h = {}"
        by blast
      with a(1) show ?thesis
        by (simp add: dom_def)
    qed
    moreover have "unchanged_outside (footprint temp cs) h h2"
      using a(5) new(4) sub by (rule unchanged_outside_trans)
    ultimately show ?thesis
      by (intro exI [where x = "(a, snd c) # new"] conjI)
  qed
qed

text \<open>
  \<^verbatim>\<open>std::bad_alloc\<close> leaving a constructor: the half-built \<open>temp\<close> is destroyed, and
  every node that was live before the constructor started is as it was.
\<close>

lemma build_throws:
  fixes h :: "'a heap"
  assumes obj: "this \<noteq> nullptr" "h this = None"
    and tmp: "tmp \<noteq> nullptr" "h tmp = None" "this \<noteq> tmp"
    and built: "is_list h2 temp2 new" "head' temp2 = tmp"
      "fst ` set new \<inter> dom (h(this \<mapsto> s0, tmp \<mapsto> t0)) = {}"
      "unchanged_outside {tmp} (h(this \<mapsto> s0, tmp \<mapsto> t0)) h2"
    and run: "unwind h2 temp2 this = (e, h')"
  shows "e = BadAlloc \<and> unchanged_outside {} h h'"
proof -
  let ?h1 = "h(this \<mapsto> s0, tmp \<mapsto> t0)"
  from is_list_sentinel_cells [OF built(1)] obtain d
    where "cells h2 (head' temp2) ((head' temp2, d) # new)" ..
  from destroy_chain [OF this] obtain h3 where
    h3: "SingleLinkedList_destroy h2 temp2 = Inr h3"
      "\<forall>q. q \<notin> footprint temp2 new \<longrightarrow> h3 q = h2 q"
    by blast
  from h3(1) run have e: "e = BadAlloc" and h': "h' = h3(this := None)"
    by (simp_all add: unwind_def)
  have "unchanged_outside {} h h'"
    unfolding unchanged_outside_def
  proof (intro allI impI)
    fix q
    assume "q \<in> dom h \<and> q \<notin> {}"
    then have q: "q \<in> dom h"
      by simp
    with obj(2) tmp(2) have neq: "q \<noteq> this" "q \<noteq> tmp"
      by auto
    from q built(3) have "q \<notin> fst ` set new"
      by auto
    with neq built(2) have "q \<notin> footprint temp2 new"
      by (simp add: footprint_def)
    with h3(2) neq have "h' q = h2 q"
      by (simp add: h')
    also from built(4) q neq have "h2 q = ?h1 q"
      by (simp add: unchanged_outside_def dom_def)
    also from neq have "?h1 q = h q"
      by simp
    finally show "h' q = h q" .
  qed
  with e show ?thesis
    by simp
qed

lemma build_and_swap_returns:
  fixes h :: "'a heap"
  assumes obj: "this \<noteq> nullptr" "h this = None"
    and tmp: "tmp \<noteq> nullptr" "h tmp = None" "this \<noteq> tmp"
    and built: "is_list h2 temp2 new" "head' temp2 = tmp"
      "fst ` set new \<inter> dom (h(this \<mapsto> s0, tmp \<mapsto> t0)) = {}"
      "unchanged_outside {tmp} (h(this \<mapsto> s0, tmp \<mapsto> t0)) h2"
    and s0: "next_node s0 = nullptr"
  shows "\<exists>h' l'. swap_and_drop h2 \<lparr>head' = this, size' = garbage\<rparr> temp2 = Inr (h', l')"
proof -
  let ?h1 = "h(this \<mapsto> s0, tmp \<mapsto> t0)"
  let ?self = "\<lparr>head' = this, size' = garbage\<rparr>"
  have "?h1 this = Some s0"
    using tmp(3) by simp
  from unchanged_outsideD [OF built(4) this] tmp(3) have "h2 this = Some s0"
    by simp
  with obj(1) s0 have self: "cells h2 (head' ?self) ((head' ?self, value s0) # [])"
    by simp
  have this_new: "this \<notin> fst ` set new"
    using built(3) by auto
  with tmp(3) built(2) have disj: "footprint ?self [] \<inter> footprint temp2 new = {}"
    by (auto simp: footprint_def)
  from swap_and_drop_chains [OF self built(1) disj] show ?thesis
    by blast
qed

lemma init_throws:
  fixes h :: "'a heap"
  assumes ok: "valid_allocator alloc"
    and obj: "this \<noteq> nullptr" "h this = None"
    and tmp: "tmp \<noteq> nullptr" "h tmp = None" "this \<noteq> tmp"
    and run: "SingleLinkedList_init alloc h this tmp dflt garbage vs = Inl (BadAlloc, h')"
  shows "unchanged_outside {} h h'"
proof -
  let ?s0 = "\<lparr>value = dflt, next_node = nullptr\<rparr>"
  let ?h1 = "h(this \<mapsto> ?s0, tmp \<mapsto> ?s0)"
  let ?temp = "\<lparr>head' = tmp, size' = 0\<rparr>"
  let ?self = "\<lparr>head' = this, size' = garbage\<rparr>"
  show ?thesis
  proof (cases "insert_all alloc ?h1 ?temp (before_begin ?temp) vs")
    case (Inl f)
    then obtain e h2 temp2 where
      loop: "insert_all alloc ?h1 ?temp (before_begin ?temp) vs = Inl (e, h2, temp2)"
      by (cases f) auto
    with run have e: "e = BadAlloc" and unw: "unwind h2 temp2 this = (BadAlloc, h')"
      unfolding SingleLinkedList_init_def SingleLinkedList_default_def Let_def
      by (simp_all split: if_splits)
    from insert_all_throws [OF ok fresh_temp(1,2) [OF tmp(1)] loop [unfolded e]] obtain new where
      new: "is_list h2 temp2 ([] @ new)" "head' temp2 = head' ?temp"
        "fst ` set new \<inter> dom ?h1 = {}"
        "unchanged_outside (footprint ?temp ([] :: (addr \<times> 'a) list)) ?h1 h2"
      by blast
    from new(1) have b1: "is_list h2 temp2 new"
      by simp
    from new(2) have b2: "head' temp2 = tmp"
      by simp
    from new(4) have b4: "unchanged_outside {tmp} ?h1 h2"
      by (simp add: fresh_temp(3) [OF tmp(1)])
    from build_throws [OF obj tmp b1 b2 new(3) b4 unw] show ?thesis
      by simp
  next
    case (Inr res)
    then obtain h2 temp2 current where
      loop: "insert_all alloc ?h1 ?temp (before_begin ?temp) vs = Inr (h2, temp2, current)"
      by (cases res) auto
    with run have fin: "swap_and_drop h2 ?self temp2 = Inl (BadAlloc, h')"
      unfolding SingleLinkedList_init_def SingleLinkedList_default_def Let_def
      by simp
    from insert_all_list [OF ok fresh_temp(1,2) [OF tmp(1)] loop] obtain new where
      new: "is_list h2 temp2 ([] @ new)" "head' temp2 = head' ?temp"
        "fst ` set new \<inter> dom ?h1 = {}"
        "unchanged_outside (footprint ?temp ([] :: (addr \<times> 'a) list)) ?h1 h2"
      by blast
    from new(1) have b1: "is_list h2 temp2 new"
      by simp
    from new(2) have b2: "head' temp2 = tmp"
      by simp
    from new(4) have b4: "unchanged_outside {tmp} ?h1 h2"
      by (simp add: fresh_temp(3) [OF tmp(1)])
    have "\<exists>h' l'. swap_and_drop h2 ?self temp2 = Inr (h', l')"
      using obj tmp b1 b2 new(3) b4 by (rule build_and_swap_returns) simp
    with fin show ?thesis
      by simp
  qed
qed

lemma copy_throws:
  fixes h :: "'a heap"
  assumes ok: "valid_allocator alloc"
    and other: "is_list h other os"
    and obj: "this \<noteq> nullptr" "h this = None"
    and tmp: "tmp \<noteq> nullptr" "h tmp = None" "this \<noteq> tmp"
    and run: "SingleLinkedList_copy alloc h this tmp dflt garbage other = Some (Inl (BadAlloc, h'))"
  shows "unchanged_outside {} h h'"
proof -
  let ?s0 = "\<lparr>value = dflt, next_node = nullptr\<rparr>"
  let ?h1 = "h(this \<mapsto> ?s0, tmp \<mapsto> ?s0)"
  let ?temp = "\<lparr>head' = tmp, size' = 0\<rparr>"
  let ?self = "\<lparr>head' = this, size' = garbage\<rparr>"
  from footprint_live(1) [OF other] obj(2) tmp(2)
  have out: "this \<notin> footprint other os" "tmp \<notin> footprint other os"
    by auto
  have other1: "is_list ?h1 other os"
    using other
  proof (rule is_list_frame)
    fix q
    assume "q \<in> footprint other os"
    with out have "q \<noteq> this" "q \<noteq> tmp"
      by auto
    then show "?h1 q = h q"
      by simp
  qed
  from cbegin_list [OF other1] obtain p where
    p: "begin_it ?h1 other = Inr (BasicIterator_of p)" "cells ?h1 p os"
    by (auto simp: cbegin_def)
  from out(2) have apart: "fst ` set os \<inter> footprint ?temp [] = {}"
    by (auto simp: footprint_def)
  from copy_all_list [OF ok fresh_temp(1,2) [OF tmp(1)] p(2) apart] obtain r where
    r: "copy_all alloc ?h1 ?temp (before_begin ?temp) (BasicIterator_of p)
          (BasicIterator_of nullptr) = Some r"
      "\<forall>h2 temp2 current. r = Inr (h2, temp2, current) \<longrightarrow>
              (\<exists>new. is_list h2 temp2 ([] @ new) \<and> elements new = elements os \<and>
                 head' temp2 = head' ?temp \<and> fst ` set new \<inter> dom ?h1 = {} \<and>
                 unchanged_outside (footprint ?temp ([] :: (addr \<times> 'a) list)) ?h1 h2 \<and>
                 dom ?h1 \<subseteq> dom h2)"
    by blast
  show ?thesis
  proof (cases r)
    case (Inl f)
    then obtain e h2 temp2 where f: "r = Inl (e, h2, temp2)"
      by (cases f) auto
    with run p(1) r(1) have e: "e = BadAlloc" and unw: "unwind h2 temp2 this = (BadAlloc, h')"
      unfolding SingleLinkedList_copy_def SingleLinkedList_default_def Let_def
      by (simp_all add: end_it_def split: if_splits)
    from r(1) f e have loop: "copy_all alloc ?h1 ?temp (before_begin ?temp) (BasicIterator_of p)
          (BasicIterator_of nullptr) = Some (Inl (BadAlloc, h2, temp2))"
      by simp
    from copy_all_throws [OF ok fresh_temp(1,2) [OF tmp(1)] p(2) apart loop] obtain new where
      new: "is_list h2 temp2 ([] @ new)" "head' temp2 = head' ?temp"
        "fst ` set new \<inter> dom ?h1 = {}"
        "unchanged_outside (footprint ?temp ([] :: (addr \<times> 'a) list)) ?h1 h2"
      by blast
    from new(1) have b1: "is_list h2 temp2 new"
      by simp
    from new(2) have b2: "head' temp2 = tmp"
      by simp
    from new(4) have b4: "unchanged_outside {tmp} ?h1 h2"
      by (simp add: fresh_temp(3) [OF tmp(1)])
    from build_throws [OF obj tmp b1 b2 new(3) b4 unw] show ?thesis
      by simp
  next
    case (Inr res)
    then obtain h2 temp2 current where loop: "r = Inr (h2, temp2, current)"
      by (cases res) auto
    with run p(1) r(1) have fin: "swap_and_drop h2 ?self temp2 = Inl (BadAlloc, h')"
      unfolding SingleLinkedList_copy_def SingleLinkedList_default_def Let_def
      by (simp add: end_it_def)
    from r(2) loop obtain new where
      new: "is_list h2 temp2 ([] @ new)" "head' temp2 = head' ?temp"
        "fst ` set new \<inter> dom ?h1 = {}"
        "unchanged_outside (footprint ?temp ([] :: (addr \<times> 'a) list)) ?h1 h2"
      by blast
    from new(1) have b1: "is_list h2 temp2 new"
      by simp
    from new(2) have b2: "head' temp2 = tmp"
      by simp
    from new(4) have b4: "unchanged_outside {tmp} ?h1 h2"
      by (simp add: fresh_temp(3) [OF tmp(1)])
    have "\<exists>h' l'. swap_and_drop h2 ?self temp2 = Inr (h', l')"
      using obj tmp b1 b2 new(3) b4 by (rule build_and_swap_returns) simp
    with fin show ?thesis
      by simp
  qed
qed

lemma assign_throws:
  fixes h :: "'a heap"
  assumes ok: "valid_allocator alloc"
    and self: "is_list h self cs" and rhs: "is_list h rhs rs"
    and tmp1: "tmp1 \<noteq> nullptr" "h tmp1 = None"
    and tmp2: "tmp2 \<noteq> nullptr" "h tmp2 = None" "tmp1 \<noteq> tmp2"
    and run: "operator_assign alloc h self rhs tmp1 tmp2 dflt garbage = Some (Inl (BadAlloc, h'))"
  shows "unchanged_outside {} h h'"
proof (cases "SingleLinkedList_copy alloc h tmp1 tmp2 dflt garbage rhs")
  case None
  with run show ?thesis
    by (simp add: operator_assign_def)
next
  case (Some r)
  show ?thesis
  proof (cases r)
    case (Inl f)
    with Some run have "SingleLinkedList_copy alloc h tmp1 tmp2 dflt garbage rhs =
        Some (Inl (BadAlloc, h'))"
      by (simp add: operator_assign_def)
    with ok rhs tmp1 tmp2 show ?thesis
      by (rule copy_throws)
  next
    case (Inr res)
    then obtain h1 temp where res: "r = Inr (h1, temp)"
      by (cases res) auto
    with Some run have fin: "swap_and_drop h1 self temp = Inl (BadAlloc, h')"
      by (simp add: operator_assign_def)
    from Some res have copy:
      "SingleLinkedList_copy alloc h tmp1 tmp2 dflt garbage rhs = Some (Inr (h1, temp))"
      by simp
    from copy_list [OF ok rhs tmp1 tmp2 copy] obtain ts where
      ts: "is_list h1 temp ts" "footprint temp ts \<inter> dom h = {}" "unchanged_outside {} h h1"
      by blast
    have self1: "is_list h1 self cs"
      using self
    proof (rule is_list_frame)
      fix q
      assume "q \<in> footprint self cs"
      with footprint_live(1) [OF self] have "q \<in> dom h"
        by blast
      with ts(3) show "h1 q = h q"
        by (simp add: unchanged_outside_def)
    qed
    from is_list_sentinel_cells [OF self1] obtain d
      where chain: "cells h1 (head' self) ((head' self, d) # cs)" ..
    from footprint_live(1) [OF self] ts(2) have disj: "footprint self cs \<inter> footprint temp ts = {}"
      by blast
    from swap_and_drop_chains [OF chain ts(1) disj] fin show ?thesis
      by auto
  qed
qed

lemma inv_same_objects:
  assumes "world_inv w" and "unchanged_outside {} (store w) h'"
  shows "world_inv \<lparr>store = h', objects = objects w\<rparr>"
proof -
  from assms(1) obtain fp where
    fp1: "\<forall>y m. objects w y = Some m \<longrightarrow> is_list (store w) m (fp y)" and
    fp2: "\<forall>y z m n. y \<noteq> z \<longrightarrow> objects w y = Some m \<longrightarrow> objects w z = Some n \<longrightarrow>
                footprint m (fp y) \<inter> footprint n (fp z) = {}"
    unfolding world_inv_def by blast
  have "is_list h' m (fp y)" if "objects w y = Some m" for y m
  proof -
    from fp1 that have m: "is_list (store w) m (fp y)"
      by blast
    then show ?thesis
    proof (rule is_list_frame)
      fix q
      assume "q \<in> footprint m (fp y)"
      with footprint_live(1) [OF m] have "q \<in> dom (store w)"
        by blast
      with assms(2) show "h' q = store w q"
        by (simp add: unchanged_outside_def)
    qed
  qed
  with fp2 show ?thesis
    unfolding world_inv_def by (intro exI [where x = fp]) simp
qed

lemma inv_unchanged:
  assumes "world_inv w" and "objects w x = Some l" and "h' = store w \<and> l' = l"
  shows "world_inv \<lparr>store = h', objects = (objects w)(x \<mapsto> l')\<rparr>"
proof -
  from assms(2) have "(objects w)(x \<mapsto> l) = objects w"
    by (simp add: fun_upd_idem)
  with assms(3) have "\<lparr>store = h', objects = (objects w)(x \<mapsto> l')\<rparr> = w"
    by simp
  with assms(1) show ?thesis
    by simp
qed

lemma inv_construct_init_throws:
  assumes "world_inv w" and "valid_allocator alloc"
    and "this \<noteq> nullptr" "store w this = None" "tmp \<noteq> nullptr" "store w tmp = None" "this \<noteq> tmp"
    and "SingleLinkedList_init alloc (store w) this tmp dflt garbage vs = Inl (BadAlloc, h')"
  shows "world_inv \<lparr>store = h', objects = objects w\<rparr>"
  using assms(1) init_throws [OF assms(2-8)] by (rule inv_same_objects)

lemma inv_construct_copy_throws:
  assumes "world_inv w" and "valid_allocator alloc" and "objects w y = Some other"
    and "this \<noteq> nullptr" "store w this = None" "tmp \<noteq> nullptr" "store w tmp = None" "this \<noteq> tmp"
    and "SingleLinkedList_copy alloc (store w) this tmp dflt garbage other =
           Some (Inl (BadAlloc, h'))"
  shows "world_inv \<lparr>store = h', objects = objects w\<rparr>"
proof -
  from assms(1,3) obtain os where "is_list (store w) other os"
    unfolding world_inv_def by blast
  from assms(1) copy_throws [OF assms(2) this assms(4-9)] show ?thesis
    by (rule inv_same_objects)
qed

lemma inv_assign_throws:
  assumes "world_inv w" and "valid_allocator alloc" and "objects w x = Some l"
    and "objects w y = Some rhs"
    and "tmp1 \<noteq> nullptr" "store w tmp1 = None" "tmp2 \<noteq> nullptr" "store w tmp2 = None"
      "tmp1 \<noteq> tmp2"
    and "operator_assign alloc (store w) l rhs tmp1 tmp2 dflt garbage = Some (Inl (BadAlloc, h'))"
  shows "world_inv \<lparr>store = h', objects = objects w\<rparr>"
proof -
  from assms(1,3,4) obtain cs rs where "is_list (store w) l cs" "is_list (store w) rhs rs"
    unfolding world_inv_def by blast
  from assms(1) assign_throws [OF assms(2) this assms(5-10)] show ?thesis
    by (rule inv_same_objects)
qed

lemma step_preserves:
  assumes "step alloc w w'" and "valid_allocator alloc" and "world_inv w"
  shows "world_inv w'"
  using assms
proof (induction rule: step.induct)
  case (construct_default w x this dflt h' l')
  then show ?case
    by (blast intro: inv_construct_default)
next
  case (construct_init w x this tmp dflt garbage vals h' l')
  then show ?case
    by (blast intro: inv_construct_init)
next
  case (construct_copy w x y other this tmp dflt garbage h' l')
  then show ?case
    by (blast intro: inv_construct_copy)
next
  case (assign w x l y rhs tmp1 tmp2 dflt garbage h' l')
  then show ?case
    by (blast intro: inv_assign)
next
  case (destroy w x l h')
  then show ?case
    by (blast intro: inv_destroy)
next
  case (push_front w x l val h' l')
  then show ?case
    by (blast intro: inv_push_front)
next
  case (pop_front w x l h' l')
  then show ?case
    by (blast intro: inv_pop_front)
next
  case (insert_after w x l k pos val h' l' it)
  then show ?case
    by (blast intro: inv_insert_after)
next
  case (erase_after w x l k pos h' l' it)
  then show ?case
    by (blast intro: inv_erase_after)
next
  case (clear w x l h' l')
  then show ?case
    by (blast intro: inv_clear)
next
  case (swap_lists w x l y other h' l' other')
  then show ?case
    by (blast intro: inv_swap_lists)
next
  case (construct_init_throws w x this tmp dflt garbage vals h')
  then show ?case
    by (blast intro: inv_construct_init_throws)
next
  case (construct_copy_throws w x y other this tmp dflt garbage h')
  then show ?case
    by (blast intro: inv_construct_copy_throws)
next
  case (assign_throws w x l y rhs tmp1 tmp2 dflt garbage h')
  then show ?case
    by (blast intro: inv_assign_throws)
next
  case (push_front_throws w x l val h' l')
  from push_front_throws(2) have "h' = store w \<and> l' = l"
    by (rule PushFront_throws)
  with push_front_throws(4,1) show ?case
    by (rule inv_unchanged)
next
  case (insert_after_throws w x l k pos val h' l')
  from insert_after_throws(3) have "h' = store w \<and> l' = l"
    by (rule InsertAfter_throws)
  with insert_after_throws(5,1) show ?case
    by (rule inv_unchanged)
qed

lemma world_inv_initial:
  "world_inv initial_world"
  by (simp add: world_inv_def initial_world_def)

lemma reachable_world_inv:
  assumes "reachable alloc w" and "valid_allocator alloc"
  shows "world_inv w"
  using assms(1) unfolding reachable_def
proof (induction rule: rtranclp_induct)
  case base
  show ?case
    by (rule world_inv_initial)
next
  case (step w w')
  from step(2) assms(2) step(3) show ?case
    by (rule step_preserves)
qed

lemma example_init:
  "SingleLinkedList_init (first_free [3, 4, 5]) Map.empty 1 2 (0::nat) 99 [7, 8] =
     Inr ([1 \<mapsto> \<lparr>value = 0, next_node = 3\<rparr>, 3 \<mapsto> \<lparr>value = 7, next_node = 4\<rparr>,
           4 \<mapsto> \<lparr>value = 8, next_node = nullptr\<rparr>],
          \<lparr>head' = 1, size' = 2\<rparr>)"
  by (auto simp: SingleLinkedList_init_def SingleLinkedList_default_def before_begin_def
      BasicIterator_of_def InsertAfter_def new_Node_def first_free_def deref_def write_next_def
      swap_and_drop_def swap_def SingleLinkedList_destroy_def Clear.simps fun_eq_iff)

lemma example_erase:
  "advance [1 \<mapsto> \<lparr>value = 0::nat, next_node = 3\<rparr>, 3 \<mapsto> \<lparr>value = 7, next_node = 4\<rparr>,
           4 \<mapsto> \<lparr>value = 8, next_node = nullptr\<rparr>] (before_begin \<lparr>head' = 1, size' = 2\<rparr>) (Suc 0) =
     Inr (BasicIterator_of 3)"
  "EraseAfter [1 \<mapsto> \<lparr>value = 0::nat, next_node = 3\<rparr>, 3 \<mapsto> \<lparr>value = 7, next_node = 4\<rparr>,
           4 \<mapsto> \<lparr>value = 8, next_node = nullptr\<rparr>] \<lparr>head' = 1, size' = 2\<rparr> (BasicIterator_of 3) =
     Inr ([1 \<mapsto> \<lparr>value = 0, next_node = 3\<rparr>, 3 \<mapsto> \<lparr>value = 7, next_node = nullptr\<rparr>],
          \<lparr>head' = 1, size' = 1\<rparr>, BasicIterator_of nullptr)"
  by (auto simp: before_begin_def BasicIterator_of_def it_pre_incr_def EraseAfter_def deref_def
      write_next_def delete_Node_def fun_eq_iff)

section \<open>Iterator equality\<close>

text \<open>
  Claim C10. A default-constructed iterator, of either mutability, compares equal to
  \<^verbatim>\<open>end()\<close> and \<^verbatim>\<open>cend()\<close> of every list, in both argument orders, and the end iterators
  of any two lists compare equal to each other.
\<close>

theorem default_iterator_equals_every_end:
  "it_eq BasicIterator_default (end_it l) \<and> it_eq BasicIterator_default (cend l) \<and>
   it_eq (end_it l) BasicIterator_default \<and> it_eq (cend l) BasicIterator_default \<and>
   \<not> it_neq BasicIterator_default (end_it l) \<and> \<not> it_neq BasicIterator_default (cend l) \<and>
   it_eq (end_it l) (end_it l2) \<and> it_eq (end_it l) (cend l2) \<and>
   it_eq (cend l) (end_it l2) \<and> it_eq (cend l) (cend l2)"
  by (simp add: it_eq_def it_neq_def BasicIterator_default_def end_it_def cend_def
      BasicIterator_of_def)

section \<open>Erasing past the end\<close>

text \<open>
  Claim C3. The claim says that erasing after a position that has no successor is trapped
  by an assertion. In the code only \<^verbatim>\<open>pos.node_ != nullptr\<close> is asserted. A null position
  is trapped: \<^verbatim>\<open>EraseAfter(end())\<close> stops with the failed assertion. A position without a
  successor is not: in the one-element list whose sentinel is at address 1 and whose node
  is at address 2, \<^verbatim>\<open>EraseAfter(begin())\<close> passes the assertion, reads the null successor
  into \<^verbatim>\<open>erase_node\<close> and dereferences it; so does \<^verbatim>\<open>EraseAfter(before_begin())\<close> on the
  empty list.
\<close>

theorem EraseAfter_last_node_dereferences_null:
  "EraseAfter [1 \<mapsto> \<lparr>value = d, next_node = 2\<rparr>, 2 \<mapsto> \<lparr>value = v, next_node = nullptr\<rparr>]
      \<lparr>head' = 1, size' = 1\<rparr> (end_it \<lparr>head' = 1, size' = 1\<rparr>) =
     Inl (AssertionFailed,
          [1 \<mapsto> \<lparr>value = d, next_node = 2\<rparr>, 2 \<mapsto> \<lparr>value = v, next_node = nullptr\<rparr>],
          \<lparr>head' = 1, size' = 1\<rparr>) \<and>
   is_list [1 \<mapsto> \<lparr>value = d, next_node = 2\<rparr>, 2 \<mapsto> \<lparr>value = v, next_node = nullptr\<rparr>]
      \<lparr>head' = 1, size' = 1\<rparr> [(2, v)] \<and>
   begin_it [1 \<mapsto> \<lparr>value = d, next_node = 2\<rparr>, 2 \<mapsto> \<lparr>value = v, next_node = nullptr\<rparr>]
      \<lparr>head' = 1, size' = 1\<rparr> = Inr (BasicIterator_of 2) \<and>
   EraseAfter [1 \<mapsto> \<lparr>value = d, next_node = 2\<rparr>, 2 \<mapsto> \<lparr>value = v, next_node = nullptr\<rparr>]
      \<lparr>head' = 1, size' = 1\<rparr> (BasicIterator_of 2) =
     Inl (NullDereference,
          [1 \<mapsto> \<lparr>value = d, next_node = 2\<rparr>, 2 \<mapsto> \<lparr>value = v, next_node = nullptr\<rparr>],
          \<lparr>head' = 1, size' = 1\<rparr>) \<and>
   is_list [1 \<mapsto> \<lparr>value = d, next_node = nullptr\<rparr>] \<lparr>head' = 1, size' = 0\<rparr> [] \<and>
   EraseAfter [1 \<mapsto> \<lparr>value = d, next_node = nullptr\<rparr>] \<lparr>head' = 1, size' = 0\<rparr>
      (before_begin \<lparr>head' = 1, size' = 0\<rparr>) =
     Inl (NullDereference, [1 \<mapsto> \<lparr>value = d, next_node = nullptr\<rparr>], \<lparr>head' = 1, size' = 0\<rparr>)"
  unfolding is_list_def
  by (simp add: begin_it_def end_it_def before_begin_def EraseAfter_def deref_def
      BasicIterator_of_def)

section \<open>Removing the first element\<close>

text \<open>
  Claim C8. On a well-formed list that is empty, \<^verbatim>\<open>PopFront\<close> succeeds and changes
  neither the store nor the list object, whose count is zero. On a well-formed list with
  first node \<open>c\<close> and remaining nodes \<open>cs'\<close>, \<^verbatim>\<open>PopFront\<close> succeeds, the list then
  holds exactly \<open>cs'\<close> (so its count is one less), the node \<open>c\<close> is no longer live, and
  no other node but the sentinel is touched.
\<close>

theorem PopFront_spec:
  assumes "is_list h l cs"
  shows "(cs = [] \<longrightarrow> PopFront h l = Inr (h, l) \<and> GetSize l = 0) \<and>
         (\<forall>c cs'. cs = c # cs' \<longrightarrow>
            (\<exists>h' l'. PopFront h l = Inr (h', l') \<and> is_list h' l' cs' \<and>
               h' (fst c) = None \<and> GetSize l' = GetSize l - 1 \<and> head' l' = head' l \<and>
               (\<forall>a. a \<noteq> fst c \<and> a \<noteq> head' l \<longrightarrow> h' a = h a)))"
proof (intro conjI impI allI)
  assume "cs = []"
  with assms have "IsEmpty l"
    by (simp add: is_list_Nil_IsEmpty)
  then show "PopFront h l = Inr (h, l)"
    by (rule PopFront_empty)
next
  assume "cs = []"
  with assms have "IsEmpty l"
    by (simp add: is_list_Nil_IsEmpty)
  then show "GetSize l = 0"
    by (simp add: IsEmpty_def GetSize_def)
next
  fix c cs'
  assume "cs = c # cs'"
  with assms have l: "is_list h l (c # cs')"
    by simp
  from is_list_sentinel_notin [OF l] have "head' l \<noteq> fst c"
    by auto
  with PopFront_nonempty [OF l]
  show "\<exists>h' l'. PopFront h l = Inr (h', l') \<and> is_list h' l' cs' \<and>
               h' (fst c) = None \<and> GetSize l' = GetSize l - 1 \<and> head' l' = head' l \<and>
               (\<forall>a. a \<noteq> fst c \<and> a \<noteq> head' l \<longrightarrow> h' a = h a)"
    by (auto simp: GetSize_def)
qed

theorem PopFront_spec_witness:
  "is_list [1 \<mapsto> \<lparr>value = 0::nat, next_node = 2\<rparr>, 2 \<mapsto> \<lparr>value = 7, next_node = nullptr\<rparr>]
      \<lparr>head' = 1, size' = 1\<rparr> [(2, 7)] \<and>
   (\<exists>h' l'. PopFront [1 \<mapsto> \<lparr>value = 0::nat, next_node = 2\<rparr>, 2 \<mapsto> \<lparr>value = 7, next_node = nullptr\<rparr>]
               \<lparr>head' = 1, size' = 1\<rparr> = Inr (h', l') \<and>
            is_list h' l' [] \<and> h' 2 = None \<and> GetSize l' = 0) \<and>
   is_list [1 \<mapsto> \<lparr>value = 0::nat, next_node = nullptr\<rparr>] \<lparr>head' = 1, size' = 0\<rparr> [] \<and>
   PopFront [1 \<mapsto> \<lparr>value = 0::nat, next_node = nullptr\<rparr>] \<lparr>head' = 1, size' = 0\<rparr> =
     Inr ([1 \<mapsto> \<lparr>value = 0::nat, next_node = nullptr\<rparr>], \<lparr>head' = 1, size' = 0\<rparr>)"
proof -
  let ?h = "[1 \<mapsto> \<lparr>value = 0::nat, next_node = 2\<rparr>, 2 \<mapsto> \<lparr>value = 7, next_node = nullptr\<rparr>]"
  let ?l = "\<lparr>head' = 1, size' = 1\<rparr>"
  let ?hE = "[1 \<mapsto> \<lparr>value = 0::nat, next_node = nullptr\<rparr>]"
  let ?lE = "\<lparr>head' = 1, size' = 0\<rparr>"
  have one: "is_list ?h ?l [(2, 7)]"
    unfolding is_list_def by simp
  have none: "is_list ?hE ?lE []"
    unfolding is_list_def by simp
  from PopFront_spec [OF one] have
    "\<exists>h' l'. PopFront ?h ?l = Inr (h', l') \<and> is_list h' l' [] \<and> h' 2 = None \<and> GetSize l' = 0"
    by (auto simp: GetSize_def)
  moreover from PopFront_spec [OF none] have "PopFront ?hE ?lE = Inr (?hE, ?lE)"
    by simp
  ultimately show ?thesis
    using one none by blast
qed

text \<open>
  Claim C9. On a well-formed list that is not empty, \<^verbatim>\<open>PopFront()\<close> and
  \<^verbatim>\<open>EraseAfter(before_begin())\<close> both succeed and leave the same store and the same list
  object (hence the same element sequence and the same count): the list without its first
  node.
\<close>

theorem PopFront_is_EraseAfter_before_begin:
  assumes "is_list h l cs" and "\<not> IsEmpty l"
  shows "\<exists>h' l' it. EraseAfter h l (before_begin l) = Inr (h', l', it) \<and>
           PopFront h l = Inr (h', l') \<and> is_list h' l' (tl cs) \<and>
           GetSize l' = GetSize l - 1"
proof -
  from assms obtain c cs' where cs: "cs = c # cs'"
    by (cases cs) (auto simp: is_list_def IsEmpty_def unat_eq_0)
  with assms(1) have l: "is_list h l (c # cs')" and l': "is_list h l ([] @ c # cs')"
    by simp_all
  have pos: "node' (before_begin l) = last (head' l # map fst [])"
    by (simp add: before_begin_def BasicIterator_of_def)
  from is_list_sentinel_notin [OF l] have neq: "head' l \<noteq> fst c"
    by auto
  from PopFront_nonempty [OF l] obtain hn fn where
    pop: "h (head' l) = Some hn" "h (fst c) = Some fn"
      "PopFront h l = Inr ((h(fst c := None))(head' l \<mapsto> hn\<lparr>next_node := next_node fn\<rparr>),
                  l\<lparr>size' := size' l - 1\<rparr>)"
      "is_list ((h(fst c := None))(head' l \<mapsto> hn\<lparr>next_node := next_node fn\<rparr>))
                  (l\<lparr>size' := size' l - 1\<rparr>) cs'"
    by blast
  from EraseAfter_at [of h l "[]" c cs' "before_begin l", OF l' pos] pop(1,2)
  have "EraseAfter h l (before_begin l) =
          Inr ((h(head' l \<mapsto> hn\<lparr>next_node := next_node fn\<rparr>))(fst c := None),
               l\<lparr>size' := size' l - 1\<rparr>, BasicIterator_of (next_node fn))"
    by (auto simp: before_begin_def BasicIterator_of_def)
  moreover have "(h(head' l \<mapsto> hn\<lparr>next_node := next_node fn\<rparr>))(fst c := None) =
                 (h(fst c := None))(head' l \<mapsto> hn\<lparr>next_node := next_node fn\<rparr>)"
    using neq by (simp add: fun_upd_twist)
  ultimately show ?thesis
    using pop(3,4) cs by (simp add: GetSize_def)
qed


theorem PopFront_is_EraseAfter_before_begin_witness:
  "is_list [1 \<mapsto> \<lparr>value = 0::nat, next_node = 2\<rparr>, 2 \<mapsto> \<lparr>value = 7, next_node = nullptr\<rparr>]
      \<lparr>head' = 1, size' = 1\<rparr> [(2, 7)] \<and>
   \<not> IsEmpty \<lparr>head' = 1, size' = 1\<rparr> \<and>
   (\<exists>h' l' it.
      EraseAfter [1 \<mapsto> \<lparr>value = 0::nat, next_node = 2\<rparr>, 2 \<mapsto> \<lparr>value = 7, next_node = nullptr\<rparr>]
        \<lparr>head' = 1, size' = 1\<rparr> (before_begin \<lparr>head' = 1, size' = 1\<rparr>) = Inr (h', l', it) \<and>
      PopFront [1 \<mapsto> \<lparr>value = 0::nat, next_node = 2\<rparr>, 2 \<mapsto> \<lparr>value = 7, next_node = nullptr\<rparr>]
        \<lparr>head' = 1, size' = 1\<rparr> = Inr (h', l') \<and>
      is_list h' l' [])"
proof -
  let ?h = "[1 \<mapsto> \<lparr>value = 0::nat, next_node = 2\<rparr>, 2 \<mapsto> \<lparr>value = 7, next_node = nullptr\<rparr>]"
  let ?l = "\<lparr>head' = 1, size' = 1\<rparr>"
  have one: "is_list ?h ?l [(2, 7)]"
    unfolding is_list_def by simp
  have nonempty: "\<not> IsEmpty ?l"
    by (simp add: IsEmpty_def)
  from PopFront_is_EraseAfter_before_begin [OF one nonempty] have
    "\<exists>h' l' it. EraseAfter ?h ?l (before_begin ?l) = Inr (h', l', it) \<and>
       PopFront ?h ?l = Inr (h', l') \<and> is_list h' l' []"
    by auto
  with one nonempty show ?thesis
    by blast
qed

section \<open>Inserting after a position\<close>

text \<open>
  Claim C2. Let the list be well formed with nodes \<open>cs\<close>, let \<open>pos\<close> refer to its sentinel
  or to one of its nodes, and let the allocator be valid. If the allocation fails,
  \<^verbatim>\<open>InsertAfter\<close> stops with \<open>BadAlloc\<close> and the store and the list object are the ones it
  was called with. If the allocation returns \<open>a\<close>, then \<open>cs\<close> splits as \<open>pre @ post\<close> with
  \<open>pos\<close> at the end of \<open>pre\<close> (at the sentinel when \<open>pre\<close> is empty), the call succeeds,
  the list then holds \<open>pre\<close>, the new node \<open>a\<close> with the value, and \<open>post\<close>, in this order and
  otherwise unchanged, the count has grown by one, the returned iterator refers to \<open>a\<close> and
  dereferences to the value, and no node other than \<open>a\<close> and the one at \<open>pos\<close> is touched.
\<close>

theorem InsertAfter_spec:
  assumes "is_list h l cs"
    and "node' pos \<in> insert (head' l) (fst ` set cs)"
    and "valid_allocator alloc"
  shows "(alloc h = None \<longrightarrow> InsertAfter alloc h l pos v = Inl (BadAlloc, h, l)) \<and>
         (\<forall>a. alloc h = Some a \<longrightarrow>
            (\<exists>pre post h' l'.
               cs = pre @ post \<and> node' pos = last (head' l # map fst pre) \<and>
               InsertAfter alloc h l pos v = Inr (h', l', BasicIterator_of a) \<and>
               is_list h' l' (pre @ (a, v) # post) \<and>
               GetSize l' = GetSize l + 1 \<and>
               it_deref h' (BasicIterator_of a) = Inr v \<and>
               (\<forall>q. q \<noteq> a \<and> q \<noteq> node' pos \<longrightarrow> h' q = h q)))"
proof (intro conjI impI allI)
  assume "alloc h = None"
  moreover have "nullptr \<notin> insert (head' l) (fst ` set cs)"
    using is_list_distinct(2) [OF assms(1)] by simp
  with assms(2) have "node' pos \<noteq> nullptr"
    by metis
  ultimately show "InsertAfter alloc h l pos v = Inl (BadAlloc, h, l)"
    by (simp add: InsertAfter_def new_Node_def)
next
  fix a
  assume alloc: "alloc h = Some a"
  with assms(3) have fresh: "a \<noteq> nullptr" "h a = None"
    by (auto simp: valid_allocator_def)
  from position_split [OF assms(2)] obtain pre post
    where split: "cs = pre @ post" and pos: "node' pos = last (head' l # map fst pre)"
    by blast
  from assms(1) split have l: "is_list h l (pre @ post)"
    by simp
  from InsertAfter_at [of h l pre post pos alloc a v, OF l pos alloc fresh] obtain pn where
    run: "InsertAfter alloc h l pos v =
             Inr (h(a \<mapsto> \<lparr>value = v, next_node = next_node pn\<rparr>,
                    node' pos \<mapsto> pn\<lparr>next_node := a\<rparr>),
                  l\<lparr>size' := size' l + 1\<rparr>, BasicIterator_of a)" and
    wf: "is_list (h(a \<mapsto> \<lparr>value = v, next_node = next_node pn\<rparr>,
                      node' pos \<mapsto> pn\<lparr>next_node := a\<rparr>))
                   (l\<lparr>size' := size' l + 1\<rparr>) (pre @ (a, v) # post)" and
    pn: "h (node' pos) = Some pn"
    by blast
  from pn fresh(2) have neq: "node' pos \<noteq> a"
    by auto
  let ?h' = "h(a \<mapsto> \<lparr>value = v, next_node = next_node pn\<rparr>, node' pos \<mapsto> pn\<lparr>next_node := a\<rparr>)"
  have "it_deref ?h' (BasicIterator_of a) = Inr v"
    using fresh(1) neq by (simp add: it_deref_def BasicIterator_of_def deref_def)
  moreover have "\<forall>q. q \<noteq> a \<and> q \<noteq> node' pos \<longrightarrow> ?h' q = h q"
    by simp
  moreover have "GetSize (l\<lparr>size' := size' l + 1\<rparr>) = GetSize l + 1"
    by (simp add: GetSize_def)
  ultimately show "\<exists>pre post h' l'.
               cs = pre @ post \<and> node' pos = last (head' l # map fst pre) \<and>
               InsertAfter alloc h l pos v = Inr (h', l', BasicIterator_of a) \<and>
               is_list h' l' (pre @ (a, v) # post) \<and>
               GetSize l' = GetSize l + 1 \<and>
               it_deref h' (BasicIterator_of a) = Inr v \<and>
               (\<forall>q. q \<noteq> a \<and> q \<noteq> node' pos \<longrightarrow> h' q = h q)"
    using split pos run wf by blast
qed

theorem InsertAfter_spec_witness:
  "is_list [1 \<mapsto> \<lparr>value = 0::nat, next_node = 2\<rparr>, 2 \<mapsto> \<lparr>value = 7, next_node = nullptr\<rparr>]
      \<lparr>head' = 1, size' = 1\<rparr> [(2, 7)] \<and>
   node' (BasicIterator_of 2) \<in> insert (head' \<lparr>head' = 1, size' = 1\<rparr>) (fst ` set [(2, 7::nat)]) \<and>
   valid_allocator (first_free [3] :: nat allocator) \<and>
   first_free [3] [1 \<mapsto> \<lparr>value = 0::nat, next_node = 2\<rparr>, 2 \<mapsto> \<lparr>value = 7, next_node = nullptr\<rparr>]
     = Some 3 \<and>
   (\<exists>h' l'.
      InsertAfter (first_free [3])
        [1 \<mapsto> \<lparr>value = 0::nat, next_node = 2\<rparr>, 2 \<mapsto> \<lparr>value = 7, next_node = nullptr\<rparr>]
        \<lparr>head' = 1, size' = 1\<rparr> (BasicIterator_of 2) 9 = Inr (h', l', BasicIterator_of 3) \<and>
      is_list h' l' [(2, 7), (3, 9)] \<and> GetSize l' = 2 \<and>
      it_deref h' (BasicIterator_of 3) = Inr 9) \<and>
   valid_allocator (first_free [] :: nat allocator) \<and>
   InsertAfter (first_free [])
        [1 \<mapsto> \<lparr>value = 0::nat, next_node = 2\<rparr>, 2 \<mapsto> \<lparr>value = 7, next_node = nullptr\<rparr>]
        \<lparr>head' = 1, size' = 1\<rparr> (BasicIterator_of 2) 9 =
     Inl (BadAlloc,
          [1 \<mapsto> \<lparr>value = 0::nat, next_node = 2\<rparr>, 2 \<mapsto> \<lparr>value = 7, next_node = nullptr\<rparr>],
          \<lparr>head' = 1, size' = 1\<rparr>)"
proof -
  let ?h = "[1 \<mapsto> \<lparr>value = 0::nat, next_node = 2\<rparr>, 2 \<mapsto> \<lparr>value = 7, next_node = nullptr\<rparr>]"
  let ?l = "\<lparr>head' = 1, size' = 1\<rparr>"
  let ?pos = "BasicIterator_of 2"
  have wf: "is_list ?h ?l [(2, 7)]"
    unfolding is_list_def by simp
  have pos: "node' ?pos \<in> insert (head' ?l) (fst ` set [(2, 7::nat)])"
    by (simp add: BasicIterator_of_def)
  have ok3: "valid_allocator (first_free [3] :: nat allocator)"
    and okE: "valid_allocator (first_free [] :: nat allocator)"
    by (rule valid_allocator_first_free)+
  have a3: "first_free [3] ?h = Some 3"
    by (simp add: first_free_def)
  have aE: "first_free [] ?h = None"
    by (simp add: first_free_def)
  from InsertAfter_spec [OF wf pos ok3, of 9] a3 obtain pre post h' l' where
    r: "[(2, 7)] = pre @ post" "node' ?pos = last (head' ?l # map fst pre)"
      "InsertAfter (first_free [3]) ?h ?l ?pos 9 = Inr (h', l', BasicIterator_of 3)"
      "is_list h' l' (pre @ (3, 9) # post)" "GetSize l' = GetSize ?l + 1"
      "it_deref h' (BasicIterator_of 3) = Inr 9"
    by blast
  from r(1,2) have "pre = [(2, 7)] \<and> post = []"
    by (cases pre) (auto simp: BasicIterator_of_def)
  with r(3,4,5,6) have
    "\<exists>h' l'. InsertAfter (first_free [3]) ?h ?l ?pos 9 = Inr (h', l', BasicIterator_of 3) \<and>
       is_list h' l' [(2, 7), (3, 9)] \<and> GetSize l' = 2 \<and> it_deref h' (BasicIterator_of 3) = Inr 9"
    by (auto simp: GetSize_def)
  moreover from InsertAfter_spec [OF wf pos okE, of 9] aE
  have "InsertAfter (first_free []) ?h ?l ?pos 9 = Inl (BadAlloc, ?h, ?l)"
    by blast
  ultimately show ?thesis
    using wf pos ok3 okE a3 by blast
qed

text \<open>
  Claim C7. Under the same conditions, when the allocation succeeds, \<^verbatim>\<open>InsertAfter(pos, x)\<close>
  followed by \<^verbatim>\<open>EraseAfter(pos)\<close> succeeds and gives back exactly the store and the list
  object from before the insertion: the same nodes with the same elements in the same order,
  and the same count.
\<close>

theorem InsertAfter_then_EraseAfter_restores:
  assumes "is_list h l cs"
    and "node' pos \<in> insert (head' l) (fst ` set cs)"
    and "valid_allocator alloc" and "alloc h = Some a"
  shows "\<exists>h1 l1 it. InsertAfter alloc h l pos x = Inr (h1, l1, it) \<and>
           (\<exists>it'. EraseAfter h1 l1 pos = Inr (h, l, it'))"
proof -
  from assms(3,4) have fresh: "a \<noteq> nullptr" "h a = None"
    by (auto simp: valid_allocator_def)
  from position_split [OF assms(2)] obtain pre post
    where split: "cs = pre @ post" and pos: "node' pos = last (head' l # map fst pre)"
    by blast
  from assms(1) split have l: "is_list h l (pre @ post)"
    by simp
  from InsertAfter_at [of h l pre post pos alloc a x, OF l pos assms(4) fresh] obtain pn where
    ins: "InsertAfter alloc h l pos x =
             Inr (h(a \<mapsto> \<lparr>value = x, next_node = next_node pn\<rparr>,
                    node' pos \<mapsto> pn\<lparr>next_node := a\<rparr>),
                  l\<lparr>size' := size' l + 1\<rparr>, BasicIterator_of a)" and
    wf: "is_list (h(a \<mapsto> \<lparr>value = x, next_node = next_node pn\<rparr>,
                      node' pos \<mapsto> pn\<lparr>next_node := a\<rparr>))
                   (l\<lparr>size' := size' l + 1\<rparr>) (pre @ (a, x) # post)" and
    pn: "h (node' pos) = Some pn"
    by blast
  let ?h1 = "h(a \<mapsto> \<lparr>value = x, next_node = next_node pn\<rparr>, node' pos \<mapsto> pn\<lparr>next_node := a\<rparr>)"
  let ?l1 = "l\<lparr>size' := size' l + 1\<rparr>"
  from pn fresh(2) have neq: "node' pos \<noteq> a"
    by auto
  have pos1: "node' pos = last (head' ?l1 # map fst pre)"
    using pos by simp
  from EraseAfter_at [of ?h1 ?l1 pre "(a, x)" post pos, OF wf pos1] obtain pn1 cn where
    er: "?h1 (node' pos) = Some pn1" "?h1 (fst (a, x)) = Some cn"
      "EraseAfter ?h1 ?l1 pos =
         Inr ((?h1(node' pos \<mapsto> pn1\<lparr>next_node := next_node cn\<rparr>))(fst (a, x) := None),
              ?l1\<lparr>size' := size' ?l1 - 1\<rparr>, BasicIterator_of (next_node cn))"
    by blast
  from er(1) have pn1: "pn1 = pn\<lparr>next_node := a\<rparr>"
    by simp
  from er(2) neq have cn: "cn = \<lparr>value = x, next_node = next_node pn\<rparr>"
    by simp
  have "(?h1(node' pos \<mapsto> pn1\<lparr>next_node := next_node cn\<rparr>))(fst (a, x) := None) = h"
    using pn fresh(2) neq by (auto simp: fun_eq_iff pn1 cn)
  moreover have "?l1\<lparr>size' := size' ?l1 - 1\<rparr> = l"
    by simp
  ultimately have "EraseAfter ?h1 ?l1 pos = Inr (h, l, BasicIterator_of (next_node cn))"
    using er(3) by simp
  with ins show ?thesis
    by blast
qed

theorem InsertAfter_then_EraseAfter_restores_witness:
  "is_list [1 \<mapsto> \<lparr>value = 0::nat, next_node = 2\<rparr>, 2 \<mapsto> \<lparr>value = 7, next_node = nullptr\<rparr>]
      \<lparr>head' = 1, size' = 1\<rparr> [(2, 7)] \<and>
   node' (before_begin \<lparr>head' = 1, size' = 1\<rparr>) \<in>
     insert (head' \<lparr>head' = 1, size' = 1\<rparr>) (fst ` set [(2, 7::nat)]) \<and>
   valid_allocator (first_free [3] :: nat allocator) \<and>
   first_free [3] [1 \<mapsto> \<lparr>value = 0::nat, next_node = 2\<rparr>, 2 \<mapsto> \<lparr>value = 7, next_node = nullptr\<rparr>]
     = Some 3 \<and>
   (\<exists>h1 l1 it.
      InsertAfter (first_free [3])
        [1 \<mapsto> \<lparr>value = 0::nat, next_node = 2\<rparr>, 2 \<mapsto> \<lparr>value = 7, next_node = nullptr\<rparr>]
        \<lparr>head' = 1, size' = 1\<rparr> (before_begin \<lparr>head' = 1, size' = 1\<rparr>) 9 = Inr (h1, l1, it) \<and>
      (\<exists>it'. EraseAfter h1 l1 (before_begin \<lparr>head' = 1, size' = 1\<rparr>) =
         Inr ([1 \<mapsto> \<lparr>value = 0::nat, next_node = 2\<rparr>, 2 \<mapsto> \<lparr>value = 7, next_node = nullptr\<rparr>],
              \<lparr>head' = 1, size' = 1\<rparr>, it')))"
proof -
  let ?h = "[1 \<mapsto> \<lparr>value = 0::nat, next_node = 2\<rparr>, 2 \<mapsto> \<lparr>value = 7, next_node = nullptr\<rparr>]"
  let ?l = "\<lparr>head' = 1, size' = 1\<rparr>"
  have wf: "is_list ?h ?l [(2, 7)]"
    unfolding is_list_def by simp
  have pos: "node' (before_begin ?l) \<in> insert (head' ?l) (fst ` set [(2, 7::nat)])"
    by (simp add: before_begin_def BasicIterator_of_def)
  have ok: "valid_allocator (first_free [3] :: nat allocator)"
    by (rule valid_allocator_first_free)
  have a: "first_free [3] ?h = Some 3"
    by (simp add: first_free_def)
  from InsertAfter_then_EraseAfter_restores [OF wf pos ok a, of 9] wf pos ok a
  show ?thesis
    by blast
qed

section \<open>Equality and order of lists\<close>

text \<open>
  Claim C4. For well-formed lists \<open>A\<close> and \<open>B\<close> in one store, \<^verbatim>\<open>A == B\<close> returns, and
  returns true exactly when the two counts are equal and the element sequences are equal
  (the same elements in the same order); \<^verbatim>\<open>A != B\<close> returns the negation.
\<close>

theorem operator_eq_spec:
  assumes "is_list h A as" and "is_list h B bs"
  shows "operator_eq h A B =
           Some (Inr (GetSize A = GetSize B \<and> elements as = elements bs)) \<and>
         operator_neq h A B =
           Some (Inr (\<not> (GetSize A = GetSize B \<and> elements as = elements bs)))"
proof -
  from assms have sizes: "unat (GetSize A) = length as" "unat (GetSize B) = length bs"
    by (simp_all add: is_list_def GetSize_def)
  have "GetSize A = GetSize B" if "elements as = elements bs"
  proof -
    from that have "length as = length bs"
      by (metis length_map)
    with sizes show ?thesis
      by (simp add: word_unat_eq_iff)
  qed
  then have "(GetSize A = GetSize B \<and> elements as = elements bs) = (elements as = elements bs)"
    by blast
  with operator_eq_list [OF assms] show ?thesis
    by (simp add: operator_neq_def)
qed

theorem operator_eq_spec_witness:
  "is_list example_store example_A [(2, 1), (3, 2)] \<and>
   is_list example_store example_B [(5, 1), (6, 2), (7, 0)] \<and>
   operator_eq example_store example_A example_B = Some (Inr False) \<and>
   operator_neq example_store example_A example_B = Some (Inr True) \<and>
   operator_eq example_store example_A example_A = Some (Inr True) \<and>
   operator_neq example_store example_A example_A = Some (Inr False)"
  using operator_eq_spec [OF example_lists(1) example_lists(2)]
    operator_eq_spec [OF example_lists(1) example_lists(1)] example_lists(1,2)
  by simp

text \<open>
  Claim C5. For well-formed lists \<open>A\<close> and \<open>B\<close> whose elements are linearly ordered, the
  three comparisons \<^verbatim>\<open>A < B\<close>, \<^verbatim>\<open>B < A\<close> and \<^verbatim>\<open>A == B\<close> all return, and exactly one of
  them returns true.
\<close>

theorem operator_less_trichotomy:
  fixes h :: "('a :: linorder) heap"
  assumes "is_list h A as" and "is_list h B bs"
  shows "\<exists>lt gt eq.
           operator_less h A B = Some (Inr lt) \<and>
           operator_less h B A = Some (Inr gt) \<and>
           operator_eq h A B = Some (Inr eq) \<and>
           (lt \<or> gt \<or> eq) \<and> \<not> (lt \<and> gt) \<and> \<not> (lt \<and> eq) \<and> \<not> (gt \<and> eq)"
proof -
  let ?xs = "elements as" and ?ys = "elements bs"
  have "ord_class.lexordp ?xs ?ys \<or> ord_class.lexordp ?ys ?xs \<or> ?xs = ?ys"
    using lexordp_linear [of ?xs ?ys] by blast
  moreover have "\<not> (ord_class.lexordp ?xs ?ys \<and> ord_class.lexordp ?ys ?xs)"
    using lexordp_antisym [of ?xs ?ys] by blast
  moreover have "\<not> (ord_class.lexordp ?xs ?ys \<and> ?xs = ?ys)"
    "\<not> (ord_class.lexordp ?ys ?xs \<and> ?xs = ?ys)"
    using lexordp_irreflexive' [of ?xs] by auto
  ultimately show ?thesis
    using operator_less_list [OF assms] operator_less_list [OF assms(2,1)]
      operator_eq_list [OF assms]
    by blast
qed

theorem operator_less_trichotomy_witness:
  "is_list example_store example_A [(2, 1), (3, 2)] \<and>
   is_list example_store example_B [(5, 1), (6, 2), (7, 0)] \<and>
   (\<exists>lt gt eq.
      operator_less example_store example_A example_B = Some (Inr lt) \<and>
      operator_less example_store example_B example_A = Some (Inr gt) \<and>
      operator_eq example_store example_A example_B = Some (Inr eq) \<and>
      (lt \<or> gt \<or> eq) \<and> \<not> (lt \<and> gt) \<and> \<not> (lt \<and> eq) \<and> \<not> (gt \<and> eq))"
  using operator_less_trichotomy [OF example_lists(1) example_lists(2)] example_lists(1,2)
  by blast

text \<open>
  Claim C6. For well-formed lists \<open>A\<close> and \<open>B\<close>, \<^verbatim>\<open>A < B\<close> returns the lexicographic
  comparison of the two element sequences. In particular it is true when \<open>A\<close> is empty and
  \<open>B\<close> is not, and when the elements of \<open>B\<close> are those of \<open>A\<close> followed by at least one
  more.
\<close>

theorem operator_less_lexicographic:
  fixes h :: "('a :: ord) heap"
  assumes "is_list h A as" and "is_list h B bs"
  shows "operator_less h A B = Some (Inr (ord_class.lexordp (elements as) (elements bs))) \<and>
         (as = [] \<and> bs \<noteq> [] \<longrightarrow> operator_less h A B = Some (Inr True)) \<and>
         ((\<exists>zs. zs \<noteq> [] \<and> elements bs = elements as @ zs) \<longrightarrow>
            operator_less h A B = Some (Inr True))"
proof (intro conjI impI)
  show less: "operator_less h A B = Some (Inr (ord_class.lexordp (elements as) (elements bs)))"
    using assms by (rule operator_less_list)
  show "operator_less h A B = Some (Inr True)" if "as = [] \<and> bs \<noteq> []"
    using less that by simp
  show "operator_less h A B = Some (Inr True)"
    if "\<exists>zs. zs \<noteq> [] \<and> elements bs = elements as @ zs"
  proof -
    from that obtain zs where "zs \<noteq> []" "elements bs = elements as @ zs"
      by blast
    then have "ord_class.lexordp (elements as) (elements bs)"
      by (simp add: lexordp_append_rightI)
    with less show ?thesis
      by simp
  qed
qed

theorem operator_less_lexicographic_witness:
  "is_list example_store example_A [(2, 1), (3, 2)] \<and>
   is_list example_store example_B [(5, 1), (6, 2), (7, 0)] \<and>
   is_list example_store example_E [] \<and>
   (\<exists>zs. zs \<noteq> [] \<and> elements [(5, 1), (6, 2), (7, 0::nat)] = elements [(2, 1), (3, 2)] @ zs) \<and>
   operator_less example_store example_A example_B = Some (Inr True) \<and>
   operator_less example_store example_B example_A = Some (Inr False) \<and>
   operator_less example_store example_E example_A = Some (Inr True)"
proof -
  have ext: "\<exists>zs. zs \<noteq> [] \<and> elements [(5, 1), (6, 2), (7, 0::nat)] = elements [(2, 1), (3, 2)] @ zs"
    by simp
  from operator_less_lexicographic [OF example_lists(1) example_lists(2)] ext
  have "operator_less example_store example_A example_B = Some (Inr True)"
    by blast
  moreover from operator_less_lexicographic [OF example_lists(2) example_lists(1)]
  have "operator_less example_store example_B example_A = Some (Inr False)"
    by simp
  moreover from operator_less_lexicographic [OF example_lists(3) example_lists(1)]
  have "operator_less example_store example_E example_A = Some (Inr True)"
    by simp
  ultimately show ?thesis
    using example_lists ext by blast
qed

section \<open>The count of a list\<close>

text \<open>
  Claim C1. Let the allocator be valid, and let a program state be reached from the empty
  one by any sequence of the public operations on the live lists, each returning normally
  or throwing \<^verbatim>\<open>std::bad_alloc\<close>: the three constructors, copy assignment, the destructor,
  \<^verbatim>\<open>PushFront\<close>, \<^verbatim>\<open>PopFront\<close>, \<^verbatim>\<open>InsertAfter\<close>, \<^verbatim>\<open>EraseAfter\<close>, \<^verbatim>\<open>Clear\<close> and
  \<^verbatim>\<open>swap\<close>, where a position given to \<^verbatim>\<open>InsertAfter\<close> or \<^verbatim>\<open>EraseAfter\<close> is an iterator
  of the list the operation is called on. Then for every live list the sentinel's forward
  link leads through some nodes \<open>cs\<close> to null, \<^verbatim>\<open>GetSize()\<close> is the number of these
  nodes, and it is also the number of increments that take \<^verbatim>\<open>begin()\<close> to \<^verbatim>\<open>end()\<close>.
\<close>

theorem size_is_number_of_reachable_nodes:
  assumes "valid_allocator alloc" and "reachable alloc w" and "objects w x = Some l"
  shows "\<exists>hn cs first1.
           store w (head' l) = Some hn \<and> cells (store w) (next_node hn) cs \<and>
           unat (GetSize l) = length cs \<and>
           begin_it (store w) l = Inr first1 \<and>
           std_distance (store w) first1 (end_it l) 0 = Some (Inr (unat (GetSize l)))"
proof -
  from reachable_world_inv [OF assms(2,1)] assms(3) obtain cs where l: "is_list (store w) l cs"
    unfolding world_inv_def by blast
  then obtain hn where hn: "store w (head' l) = Some hn" "head' l \<noteq> nullptr"
      "cells (store w) (next_node hn) cs" "unat (size' l) = length cs"
    by (auto simp: is_list_def split: option.splits)
  from hn(1,2) have first1: "begin_it (store w) l = Inr (BasicIterator_of (next_node hn))"
    by (simp add: begin_it_def deref_def)
  from std_distance_cells [OF hn(3), of 0] hn(4)
  have "std_distance (store w) (BasicIterator_of (next_node hn)) (end_it l) 0 =
          Some (Inr (unat (GetSize l)))"
    by (simp add: end_it_def GetSize_def)
  with hn first1 show ?thesis
    by (auto simp: GetSize_def)
qed

theorem size_is_number_of_reachable_nodes_witness:
  "valid_allocator (first_free [3, 4, 5] :: nat allocator) \<and>
   reachable (first_free [3, 4, 5])
     \<lparr>store = [1 \<mapsto> \<lparr>value = 0::nat, next_node = 3\<rparr>, 3 \<mapsto> \<lparr>value = 7, next_node = nullptr\<rparr>],
      objects = [0 \<mapsto> \<lparr>head' = 1, size' = 1\<rparr>]\<rparr> \<and>
   (\<exists>hn cs first1.
      [1 \<mapsto> \<lparr>value = 0::nat, next_node = 3\<rparr>, 3 \<mapsto> \<lparr>value = 7, next_node = nullptr\<rparr>]
        (head' \<lparr>head' = 1, size' = 1\<rparr>) = Some hn \<and>
      cells [1 \<mapsto> \<lparr>value = 0::nat, next_node = 3\<rparr>, 3 \<mapsto> \<lparr>value = 7, next_node = nullptr\<rparr>]
        (next_node hn) cs \<and>
      unat (GetSize \<lparr>head' = 1, size' = 1\<rparr>) = length cs \<and>
      begin_it [1 \<mapsto> \<lparr>value = 0::nat, next_node = 3\<rparr>, 3 \<mapsto> \<lparr>value = 7, next_node = nullptr\<rparr>]
        \<lparr>head' = 1, size' = 1\<rparr> = Inr first1 \<and>
      std_distance [1 \<mapsto> \<lparr>value = 0::nat, next_node = 3\<rparr>, 3 \<mapsto> \<lparr>value = 7, next_node = nullptr\<rparr>]
        first1 (end_it \<lparr>head' = 1, size' = 1\<rparr>) 0 = Some (Inr 1))"
proof -
  let ?alloc = "first_free [3, 4, 5] :: nat allocator"
  let ?H1 = "[1 \<mapsto> \<lparr>value = 0::nat, next_node = 3\<rparr>, 3 \<mapsto> \<lparr>value = 7, next_node = 4\<rparr>,
              4 \<mapsto> \<lparr>value = 8, next_node = nullptr\<rparr>]"
  let ?L1 = "\<lparr>head' = 1, size' = 2\<rparr>"
  let ?H2 = "[1 \<mapsto> \<lparr>value = 0::nat, next_node = 3\<rparr>, 3 \<mapsto> \<lparr>value = 7, next_node = nullptr\<rparr>]"
  let ?L2 = "\<lparr>head' = 1, size' = 1\<rparr>"
  let ?W1 = "\<lparr>store = ?H1, objects = [0 \<mapsto> ?L1]\<rparr>"
  let ?W2 = "\<lparr>store = ?H2, objects = [0 \<mapsto> ?L2]\<rparr>"
  have ok: "valid_allocator ?alloc"
    by (rule valid_allocator_first_free)
  have "step ?alloc initial_world
          \<lparr>store = ?H1, objects = (objects (initial_world :: nat world))(0 \<mapsto> ?L1)\<rparr>"
    by (rule step.construct_init [where x = "0::nat" and this = 1 and tmp = 2 and dflt = "0::nat"
          and garbage = 99 and vals = "[7, 8::nat]"])
      (simp_all add: initial_world_def example_init)
  then have s1: "step ?alloc initial_world ?W1"
    by (simp add: initial_world_def)
  have "step ?alloc ?W1 \<lparr>store = ?H2, objects = (objects ?W1)(0 \<mapsto> ?L2)\<rparr>"
    by (rule step.erase_after [where x = "0::nat" and l = ?L1 and k = "Suc 0" and pos = "BasicIterator_of 3"
          and it = "BasicIterator_of nullptr"])
      (simp_all add: example_erase del: advance.simps)
  then have s2: "step ?alloc ?W1 ?W2"
    by simp
  from s1 s2 have reach: "reachable ?alloc ?W2"
    unfolding reachable_def by (meson rtranclp.rtrancl_into_rtrancl rtranclp.rtrancl_refl)
  have obj: "objects ?W2 0 = Some ?L2"
    by simp
  from size_is_number_of_reachable_nodes [OF ok reach obj] ok reach show ?thesis
    by (simp add: GetSize_def)
qed

end
